theory Spec2Isabelle
  imports Main "HOL-Library.Word" "HOL-Library.AList"
begin

unbundle bit_operations_syntax

section \<open>Primitive types\<close>

text \<open>
  \<^verbatim>\<open>btrfsprim.ObjID\<close> and \<^verbatim>\<open>btrfsprim.Generation\<close> are unsigned 64-bit integers;
  the order on \<^typ>\<open>64 word\<close> is the unsigned one.
\<close>

type_synonym ObjID = "64 word"
type_synonym Generation = "64 word"

section \<open>Rebuilt trees: the parent chain\<close>

text \<open>
  The static part of \<^verbatim>\<open>btrees.RebuiltTree\<close> (tree.go): the tree's id, the generation
  at which it was snapshotted from its parent (the offset of its root item), and the
  pointer to the parent tree, \<open>None\<close> for \<^verbatim>\<open>nil\<close>.
\<close>

datatype RebuiltTree =
  RebuiltTree (ID: ObjID) (ParentGen: Generation) (Parent: "RebuiltTree option")

text \<open>
  \<^verbatim>\<open>
  func (tree *RebuiltTree) isOwnerOK(owner btrfsprim.ObjID, gen btrfsprim.Generation) bool {
      for {
          if owner == tree.ID { return true }
          if tree.Parent == nil || gen >= tree.ParentGen { return false }
          tree = tree.Parent
      }
  }
  \<close>
\<close>

fun isOwnerOK :: "RebuiltTree \<Rightarrow> ObjID \<Rightarrow> Generation \<Rightarrow> bool" where
  "isOwnerOK (RebuiltTree tid pgen parent) owner gen =
     (if owner = tid then True
      else (case parent of
              None \<Rightarrow> False
            | Some p \<Rightarrow> if gen \<ge> pgen then False else isOwnerOK p owner gen))"

text \<open>The proper ancestors of a tree, nearest first, following \<^verbatim>\<open>.Parent\<close>.\<close>

fun ancestors :: "RebuiltTree \<Rightarrow> RebuiltTree list" where
  "ancestors (RebuiltTree tid pgen parent) =
     (case parent of None \<Rightarrow> [] | Some p \<Rightarrow> p # ancestors p)"

text \<open>
  The owner test as the specification words it: the owner is the tree itself, or some
  proper ancestor has that id and the generation is at most that ancestor's
  \<^verbatim>\<open>parent_gen\<close>.  The words allow two readings of ``that ancestor's \<^verbatim>\<open>parent_gen\<close>'': the
  \<^verbatim>\<open>ParentGen\<close> field of the ancestor itself (\<open>ownerOK_spec\<close>), or the generation of the
  ancestor at which its child on the chain was snapshotted from it, which is the
  \<^verbatim>\<open>ParentGen\<close> field of that child (\<open>ownerOK_spec_link\<close>).
\<close>

definition ownerOK_spec :: "RebuiltTree \<Rightarrow> ObjID \<Rightarrow> Generation \<Rightarrow> bool" where
  "ownerOK_spec t owner gen =
     (owner = ID t \<or> list_ex (\<lambda>a. ID a = owner \<and> gen \<le> ParentGen a) (ancestors t))"

fun ancestorsWithLink :: "RebuiltTree \<Rightarrow> (Generation \<times> RebuiltTree) list" where
  "ancestorsWithLink (RebuiltTree tid pgen parent) =
     (case parent of None \<Rightarrow> [] | Some p \<Rightarrow> (pgen, p) # ancestorsWithLink p)"

definition ownerOK_spec_link :: "RebuiltTree \<Rightarrow> ObjID \<Rightarrow> Generation \<Rightarrow> bool" where
  "ownerOK_spec_link t owner gen =
     (owner = ID t \<or> list_ex (\<lambda>(linkGen, a). ID a = owner \<and> gen \<le> linkGen) (ancestorsWithLink t))"

text \<open>
  Each proper ancestor paired with the \<^verbatim>\<open>ParentGen\<close> values of the trees the walk of
  \<^verbatim>\<open>isOwnerOK\<close> leaves behind before it reaches that ancestor (the tree itself first).
\<close>

fun ancestorLinks :: "RebuiltTree \<Rightarrow> (Generation list \<times> RebuiltTree) list" where
  "ancestorLinks (RebuiltTree tid pgen parent) =
     (case parent of
        None \<Rightarrow> []
      | Some p \<Rightarrow> ([pgen], p) # map (\<lambda>(gs, a). (pgen # gs, a)) (ancestorLinks p))"

definition reachesBelow :: "RebuiltTree \<Rightarrow> ObjID \<Rightarrow> Generation \<Rightarrow> bool" where
  "reachesBelow t owner gen =
     list_ex (\<lambda>(gs, a). ID a = owner \<and> list_all (\<lambda>g. gen < g) gs) (ancestorLinks t)"

definition reachesUpTo :: "RebuiltTree \<Rightarrow> ObjID \<Rightarrow> Generation \<Rightarrow> bool" where
  "reachesUpTo t owner gen =
     list_ex (\<lambda>(gs, a). ID a = owner \<and> list_all (\<lambda>g. gen \<le> g) gs) (ancestorLinks t)"

section \<open>Addresses\<close>

text \<open>
  Modelled from the spec: the address types of package \<^verbatim>\<open>btrfsvol\<close> are declared outside
  the sources at hand.  \<^verbatim>\<open>LogicalAddr\<close>, \<^verbatim>\<open>PhysicalAddr\<close> and \<^verbatim>\<open>AddrDelta\<close> are 64-bit signed
  integers: \<^verbatim>\<open>Add\<close> and \<^verbatim>\<open>Sub\<close> are Go's wrapping \<open>+\<close> and \<open>-\<close>, and comparisons read the
  word with \<^const>\<open>sint\<close>.  A device id is an unsigned 64-bit integer.  A qualified physical
  address orders first by device id, then by offset.
\<close>

type_synonym LogicalAddr = "64 word"
type_synonym PhysicalAddr = "64 word"
type_synonym AddrDelta = "64 word"
type_synonym DeviceID = "64 word"
type_synonym BlockGroupFlags = "64 word"

record QualifiedPhysicalAddr =
  Dev :: DeviceID
  Addr :: PhysicalAddr

definition qpa_Cmp :: "QualifiedPhysicalAddr \<Rightarrow> QualifiedPhysicalAddr \<Rightarrow> int" where
  "qpa_Cmp a b =
     (if Dev a < Dev b then -1
      else if Dev b < Dev a then 1
      else if sint (Addr a) < sint (Addr b) then -1
      else if sint (Addr b) < sint (Addr a) then 1
      else 0)"

text \<open>\<^verbatim>\<open>util.Min\<close> and \<^verbatim>\<open>util.Max\<close> at a signed 64-bit type.\<close>

definition addr_Min :: "64 word \<Rightarrow> 64 word \<Rightarrow> 64 word" where
  "addr_Min a b = (if sint a \<le> sint b then a else b)"

definition addr_Max :: "64 word \<Rightarrow> 64 word \<Rightarrow> 64 word" where
  "addr_Max a b = (if sint a \<le> sint b then b else a)"

text \<open>
  Modelled from the spec: \<^verbatim>\<open>BLOCK_GROUP_RAID_MASK\<close> is declared outside the sources at hand;
  the specification only calls it the RAID/DUP mask of the block-group flags.  The value
  is the one of the on-disk format: the bits of RAID0, RAID1, DUP, RAID10, RAID5, RAID6,
  RAID1C3 and RAID1C4 (bits 3 to 10).
\<close>

definition BLOCK_GROUP_RAID_MASK :: BlockGroupFlags where
  "BLOCK_GROUP_RAID_MASK = 0x7F8"

section \<open>Errors\<close>

text \<open>
  The Go code returns errors built by \<^verbatim>\<open>fmt.Errorf\<close>; each distinct message is one
  constructor here.  \<open>Panic\<close> stands for a Go \<^verbatim>\<open>panic\<close>.
\<close>

datatype error =
    ErrNoPhysicalVolume         \<comment> \<open>do not have a physical volume with id=...\<close>
  | ErrVolumeExists             \<comment> \<open>already have physical volume ...\<close>
  | ErrChunksDontOverlap        \<comment> \<open>chunks don't overlap\<close>
  | ErrDevextsDontOverlap       \<comment> \<open>devexts don't overlap\<close>
  | SizeLockedConflict          \<comment> \<open>member ... has locked size=..., but union would have size=...\<close>
  | FlagsConflict               \<comment> \<open>mismatch flags\<close>
  | DevExtConflict              \<comment> \<open>devexts don't agree on laddr\<close>
  | ErrMultipleStripes          \<comment> \<open>multiple stripes but flags=... does not allow multiple stripes\<close>
  | ErrFsckNoVolume             \<comment> \<open>fsck: chunk references physical volume ... which does not exist\<close>
  | ErrFsckSkew                 \<comment> \<open>fsck: skew between chunk tree and devext tree\<close>
  | ErrCouldNotMap              \<comment> \<open>could not map logical address\<close>
  | ErrNoDevice                 \<comment> \<open>device=... does not exist\<close>
  | ErrIO                       \<comment> \<open>read device=... paddr=...: ...\<close>
  | InconsistentStripes         \<comment> \<open>inconsistent stripes at laddr=... len=...\<close>
  | Panic

section \<open>The ordered-range container\<close>

text \<open>
  Modelled from the spec: \<^verbatim>\<open>containers.RBTree\<close> is not among the sources at hand.  The
  specification describes it as an ordered tree with \<open>search(p)\<close> (the value where
  \<open>p(v) = 0\<close>, or none), \<open>subrange(p, visit)\<close> (every value where \<open>p(v) = 0\<close>, ascending),
  and \<open>insert\<close>/\<open>delete\<close> keyed by the value's intrinsic order, duplicate-key inserts being
  rejected.  The tree is represented by the list of its values in ascending order; a
  \<^verbatim>\<open>nil\<close> tree pointer is \<open>None\<close>.
\<close>

type_synonym 'a RBTree = "'a list"

definition rb_Subrange :: "('a \<Rightarrow> int) \<Rightarrow> 'a RBTree \<Rightarrow> 'a list" where
  "rb_Subrange p t = filter (\<lambda>v. p v = 0) t"

definition rb_Search :: "('a \<Rightarrow> int) \<Rightarrow> 'a RBTree \<Rightarrow> 'a option" where
  "rb_Search p t = find (\<lambda>v. p v = 0) t"

definition rb_Delete :: "'a option \<Rightarrow> 'a RBTree \<Rightarrow> 'a RBTree" where
  "rb_Delete node t = (case node of None \<Rightarrow> t | Some v \<Rightarrow> remove1 v t)"

definition rb_Insert :: "('a \<Rightarrow> 'a \<Rightarrow> int) \<Rightarrow> 'a \<Rightarrow> 'a RBTree \<Rightarrow> 'a RBTree" where
  "rb_Insert cmp v t =
     (if list_ex (\<lambda>x. cmp v x = 0) t then t
      else takeWhile (\<lambda>x. cmp x v < 0) t @ v # dropWhile (\<lambda>x. cmp x v < 0) t)"

definition rb_Equal :: "'a RBTree option \<Rightarrow> 'a RBTree option \<Rightarrow> bool" where
  "rb_Equal t u =
     (case t of
        None \<Rightarrow> (case u of None \<Rightarrow> True | Some _ \<Rightarrow> False)
      | Some xs \<Rightarrow> (case u of None \<Rightarrow> False | Some ys \<Rightarrow> xs = ys))"

section \<open>Chunk mappings (logical to physical)\<close>

text \<open>
  \<^verbatim>\<open>chunkMapping\<close>, with its fields prefixed by \<open>c\<close> (the three mapping structs share
  their field names).  An absent \<^verbatim>\<open>Flags\<close> (\<^verbatim>\<open>nil\<close>, or an \<^verbatim>\<open>Optional\<close> that is not OK) is
  \<open>None\<close>.
\<close>

record chunkMapping =
  cLAddr :: LogicalAddr
  cPAddrs :: "QualifiedPhysicalAddr list"
  cSize :: AddrDelta
  cSizeLocked :: bool
  cFlags :: "BlockGroupFlags option"

text \<open>
  \<^verbatim>\<open>
  func (a chunkMapping) cmpRange(b chunkMapping) int {
      switch {
      case a.LAddr.Add(a.Size) <= b.LAddr: return -1
      case b.LAddr.Add(b.Size) <= a.LAddr: return 1
      default: return 0
      }
  }
  \<close>
\<close>

definition chunk_cmpRange :: "chunkMapping \<Rightarrow> chunkMapping \<Rightarrow> int" where
  "chunk_cmpRange a b =
     (if sint (cLAddr a + cSize a) \<le> sint (cLAddr b) then -1
      else if sint (cLAddr b + cSize b) \<le> sint (cLAddr a) then 1
      else 0)"

text \<open>
  Modelled from the spec: the intrinsic order of a chunk mapping (\<^verbatim>\<open>chunkMapping.Compare\<close>,
  which keys the tree) is not among the sources at hand; chunks are keyed by their
  logical address.
\<close>

definition chunk_Compare :: "chunkMapping \<Rightarrow> chunkMapping \<Rightarrow> int" where
  "chunk_Compare a b =
     (if sint (cLAddr a) < sint (cLAddr b) then -1
      else if sint (cLAddr b) < sint (cLAddr a) then 1
      else 0)"

text \<open>
  The flags loop, which \<^verbatim>\<open>chunkMapping.union\<close> and \<^verbatim>\<open>devextMapping.union\<close> share word for
  word: the first flags present are taken, and any later flags that differ are a conflict.
\<close>

fun union_Flags ::
  "BlockGroupFlags option \<Rightarrow> BlockGroupFlags option list \<Rightarrow> error + BlockGroupFlags option"
where
  "union_Flags ret [] = Inr ret"
| "union_Flags ret (None # rest) = union_Flags ret rest"
| "union_Flags ret (Some f # rest) =
     (let val = (case ret of None \<Rightarrow> f | Some v \<Rightarrow> v)
      in if val \<noteq> f then Inl FlagsConflict else union_Flags (Some val) rest)"

text \<open>
  The keys of the Go map of stripes, sorted by \<^verbatim>\<open>QualifiedPhysicalAddr.Cmp\<close>: insertion
  into a sorted list without duplicates.
\<close>

fun qpa_insert :: "QualifiedPhysicalAddr \<Rightarrow> QualifiedPhysicalAddr list \<Rightarrow> QualifiedPhysicalAddr list" where
  "qpa_insert p [] = [p]"
| "qpa_insert p (q # qs) =
     (if qpa_Cmp p q < 0 then p # q # qs
      else if qpa_Cmp p q = 0 then q # qs
      else q # qpa_insert p qs)"

definition sortedKeys :: "QualifiedPhysicalAddr list \<Rightarrow> QualifiedPhysicalAddr list" where
  "sortedKeys ps = foldr qpa_insert ps []"

text \<open>\<^verbatim>\<open>chunkMapping.union\<close>.\<close>

definition chunk_union :: "chunkMapping \<Rightarrow> chunkMapping list \<Rightarrow> error + chunkMapping" where
  "chunk_union a rest =
     (if list_ex (\<lambda>chunk. chunk_cmpRange a chunk \<noteq> 0) rest then Inl ErrChunksDontOverlap
      else
        let chunks = a # rest;
            beg = fold (\<lambda>chunk b. addr_Min b (cLAddr chunk)) chunks (cLAddr a);
            endA = fold (\<lambda>chunk e. addr_Max e (cLAddr chunk + cSize chunk)) chunks (cLAddr a + cSize a);
            size = endA - beg
        in
          if list_ex (\<lambda>chunk. cSizeLocked chunk \<and> size \<noteq> cSize chunk) chunks
          then Inl SizeLockedConflict
          else
            let paddrs = sortedKeys (concat (map (\<lambda>chunk.
                    map (\<lambda>stripe. \<lparr>Dev = Dev stripe,
                                     Addr = Addr stripe + (- (cLAddr chunk - beg))\<rparr>)
                        (cPAddrs chunk)) chunks))
            in case union_Flags None (map cFlags chunks) of
                 Inl e \<Rightarrow> Inl e
               | Inr flags \<Rightarrow>
                   Inr \<lparr>cLAddr = beg, cPAddrs = paddrs, cSize = size,
                        cSizeLocked = list_ex cSizeLocked chunks, cFlags = flags\<rparr>)"

section \<open>Device-extent mappings (physical to logical)\<close>

record devextMapping =
  ePAddr :: PhysicalAddr
  eLAddr :: LogicalAddr
  eSize :: AddrDelta
  eSizeLocked :: bool
  eFlags :: "BlockGroupFlags option"

definition devext_cmpRange :: "devextMapping \<Rightarrow> devextMapping \<Rightarrow> int" where
  "devext_cmpRange a b =
     (if sint (ePAddr a + eSize a) \<le> sint (ePAddr b) then -1
      else if sint (ePAddr b + eSize b) \<le> sint (ePAddr a) then 1
      else 0)"

text \<open>
  Modelled from the spec: the intrinsic order of a device extent (\<^verbatim>\<open>devextMapping.Compare\<close>)
  is not among the sources at hand; device extents are keyed by their physical address.
\<close>

definition devext_Compare :: "devextMapping \<Rightarrow> devextMapping \<Rightarrow> int" where
  "devext_Compare a b =
     (if sint (ePAddr a) < sint (ePAddr b) then -1
      else if sint (ePAddr b) < sint (ePAddr a) then 1
      else 0)"

text \<open>
  The loop of \<^verbatim>\<open>devextMapping.union\<close> that settles the logical address:
  \<^verbatim>\<open>
  first := true
  for _, ext := range exts {
      offsetWithinRet := ext.PAddr.Sub(ret.PAddr)
      laddr := ext.LAddr.Add(-offsetWithinRet)
      if first {
          ret.LAddr = laddr
      } else if laddr != ret.LAddr {
          return ret, fmt.Errorf("devexts don't agree on laddr: %v != %v", ret.LAddr, laddr)
      }
  }
  \<close>
  The variable \<^verbatim>\<open>first\<close> is passed along as the loop leaves it: the body never assigns it.
\<close>

fun union_LAddr ::
  "bool \<Rightarrow> PhysicalAddr \<Rightarrow> LogicalAddr \<Rightarrow> devextMapping list \<Rightarrow> error + LogicalAddr"
where
  "union_LAddr first retPAddr retLAddr [] = Inr retLAddr"
| "union_LAddr first retPAddr retLAddr (ext # exts) =
     (let offsetWithinRet = ePAddr ext - retPAddr;
          laddr = eLAddr ext + (- offsetWithinRet)
      in if first then union_LAddr first retPAddr laddr exts
         else if laddr \<noteq> retLAddr then Inl DevExtConflict
         else union_LAddr first retPAddr retLAddr exts)"

text \<open>\<^verbatim>\<open>devextMapping.union\<close>.\<close>

definition devext_union :: "devextMapping \<Rightarrow> devextMapping list \<Rightarrow> error + devextMapping" where
  "devext_union a rest =
     (if list_ex (\<lambda>ext. devext_cmpRange a ext \<noteq> 0) rest then Inl ErrDevextsDontOverlap
      else
        let exts = a # rest;
            beg = fold (\<lambda>ext b. addr_Min b (ePAddr ext)) exts (ePAddr a);
            endA = fold (\<lambda>ext e. addr_Max e (ePAddr ext + eSize ext)) exts (ePAddr a + eSize a);
            size = endA - beg
        in
          if list_ex (\<lambda>ext. eSizeLocked ext \<and> size \<noteq> eSize ext) exts
          then Inl SizeLockedConflict
          else
            case union_LAddr True beg 0 exts of
              Inl e \<Rightarrow> Inl e
            | Inr laddr \<Rightarrow>
                (case union_Flags None (map eFlags exts) of
                   Inl e \<Rightarrow> Inl e
                 | Inr flags \<Rightarrow>
                     Inr \<lparr>ePAddr = beg, eLAddr = laddr, eSize = size,
                          eSizeLocked = list_ex eSizeLocked exts, eFlags = flags\<rparr>))"

section \<open>The logical volume\<close>

text \<open>
  A physical volume (\<^verbatim>\<open>diskio.File[PhysicalAddr]\<close>) is a store of bytes: an address holds a
  byte or cannot be read.  \<^verbatim>\<open>ReadAt(buf, paddr)\<close> fills the whole buffer from \<open>paddr\<close> on, or
  fails if some byte of it cannot be read.
\<close>

type_synonym PhysicalVolume = "PhysicalAddr \<Rightarrow> 8 word option"

definition pv_ReadAt :: "PhysicalVolume \<Rightarrow> PhysicalAddr \<Rightarrow> nat \<Rightarrow> error + 8 word list" where
  "pv_ReadAt dev paddr n =
     (case those (map (\<lambda>i. dev (paddr + of_nat i)) [0..<n]) of
        None \<Rightarrow> Inl ErrIO
      | Some bytes \<Rightarrow> Inr bytes)"

text \<open>
  \<^verbatim>\<open>LogicalVolume\<close>.  A Go map from device ids is an association list with distinct
  keys (\<^const>\<open>map_of\<close> looks a key up, \<^const>\<open>AList.update\<close> stores, \<^const>\<open>length\<close> is
  \<^verbatim>\<open>len\<close>); \<open>None\<close> is the \<^verbatim>\<open>nil\<close> the two indexes start with and \<^verbatim>\<open>ClearMappings\<close> leaves.
  The \<^verbatim>\<open>name\<close> field plays no part in any operation below and is left out.
\<close>

record LogicalVolume =
  id2pv :: "(DeviceID \<times> PhysicalVolume) list"
  logical2physical :: "chunkMapping RBTree option"
  physical2logical :: "(DeviceID \<times> devextMapping RBTree) list option"

definition newLogicalVolume :: LogicalVolume where
  "newLogicalVolume = \<lparr>id2pv = [], logical2physical = None, physical2logical = None\<rparr>"

text \<open>The chunk index and the per-device extent indexes, read as lists (empty when absent).\<close>

definition chunks :: "LogicalVolume \<Rightarrow> chunkMapping list" where
  "chunks lv = (case logical2physical lv of None \<Rightarrow> [] | Some t \<Rightarrow> t)"

definition devextTrees :: "LogicalVolume \<Rightarrow> (DeviceID \<times> devextMapping RBTree) list" where
  "devextTrees lv = (case physical2logical lv of None \<Rightarrow> [] | Some m \<Rightarrow> m)"

definition devexts :: "LogicalVolume \<Rightarrow> DeviceID \<Rightarrow> devextMapping list" where
  "devexts lv dev = (case map_of (devextTrees lv) dev of None \<Rightarrow> [] | Some t \<Rightarrow> t)"

text \<open>
  \<^verbatim>\<open>init\<close>: both indexes are created if \<^verbatim>\<open>nil\<close>, and every registered device gets an
  (empty) extent tree if it has none.
\<close>

definition lv_init :: "LogicalVolume \<Rightarrow> LogicalVolume" where
  "lv_init lv =
     lv\<lparr>logical2physical := Some (chunks lv),
        physical2logical := Some (fold (\<lambda>(devid, pv) m.
             if map_of m devid = None then m @ [(devid, [])] else m) (id2pv lv) (devextTrees lv))\<rparr>"

definition AddPhysicalVolume ::
  "LogicalVolume \<Rightarrow> DeviceID \<Rightarrow> PhysicalVolume \<Rightarrow> error option \<times> LogicalVolume" where
  "AddPhysicalVolume lv0 devid dev =
     (let lv = lv_init lv0
      in if map_of (id2pv lv) devid \<noteq> None then (Some ErrVolumeExists, lv)
         else (None, lv\<lparr>id2pv := AList.update devid dev (id2pv lv),
                         physical2logical := Some (AList.update devid [] (devextTrees lv))\<rparr>))"


text \<open>\<^verbatim>\<open>Mapping\<close>, the unit of \<^verbatim>\<open>AddMapping\<close>.\<close>

record Mapping =
  mLAddr :: LogicalAddr
  mPAddr :: QualifiedPhysicalAddr
  mSize :: AddrDelta
  mSizeLocked :: bool
  mFlags :: "BlockGroupFlags option"

text \<open>
  \<^verbatim>\<open>fsck\<close>: the extent index is rebuilt from the chunk index, one extent for every stripe
  of every chunk (without \<^verbatim>\<open>SizeLocked\<close>, which the Go struct literal leaves \<^verbatim>\<open>false\<close>), and
  compared with the index at hand.
\<close>

fun fsck_stripes ::
  "(DeviceID \<times> PhysicalVolume) list \<Rightarrow> chunkMapping \<Rightarrow> QualifiedPhysicalAddr list \<Rightarrow>
   (DeviceID \<times> devextMapping RBTree) list \<Rightarrow> error + (DeviceID \<times> devextMapping RBTree) list"
where
  "fsck_stripes pvs chunk [] p2l = Inr p2l"
| "fsck_stripes pvs chunk (stripe # stripes) p2l =
     (if map_of pvs (Dev stripe) = None then Inl ErrFsckNoVolume
      else
        let p2l1 = (if map_of p2l (Dev stripe) = None then p2l @ [(Dev stripe, [])] else p2l);
            tree = (case map_of p2l1 (Dev stripe) of None \<Rightarrow> [] | Some t \<Rightarrow> t);
            ext = \<lparr>ePAddr = Addr stripe, eLAddr = cLAddr chunk, eSize = cSize chunk,
                   eSizeLocked = False, eFlags = cFlags chunk\<rparr>
        in fsck_stripes pvs chunk stripes
             (AList.update (Dev stripe) (rb_Insert devext_Compare ext tree) p2l1))"

fun fsck_chunks ::
  "(DeviceID \<times> PhysicalVolume) list \<Rightarrow> chunkMapping list \<Rightarrow>
   (DeviceID \<times> devextMapping RBTree) list \<Rightarrow> error + (DeviceID \<times> devextMapping RBTree) list"
where
  "fsck_chunks pvs [] p2l = Inr p2l"
| "fsck_chunks pvs (chunk # rest) p2l =
     (case fsck_stripes pvs chunk (cPAddrs chunk) p2l of
        Inl e \<Rightarrow> Inl e
      | Inr p2l' \<Rightarrow> fsck_chunks pvs rest p2l')"

definition fsck :: "LogicalVolume \<Rightarrow> error option" where
  "fsck lv =
     (case fsck_chunks (id2pv lv) (chunks lv) [] of
        Inl e \<Rightarrow> Some e
      | Inr p2l \<Rightarrow>
          if length (devextTrees lv) \<noteq> length p2l then Some ErrFsckSkew
          else if list_ex (\<lambda>(devid, tree). \<not> rb_Equal (Some tree) (map_of p2l devid))
                    (devextTrees lv)
          then Some ErrFsckSkew
          else None)"

text \<open>
  \<^verbatim>\<open>addMapping(m, dryRun)\<close>.  The result is the returned error (\<open>None\<close> for \<^verbatim>\<open>nil\<close>) and the
  volume as the call leaves it.  \<open>paranoid\<close> is whether the environment variable
  \<^verbatim>\<open>PARANOID\<close> is set.
\<close>

definition addMapping ::
  "bool \<Rightarrow> LogicalVolume \<Rightarrow> Mapping \<Rightarrow> bool \<Rightarrow> error option \<times> LogicalVolume" where
  "addMapping paranoid lv0 m dryRun =
     (let lv = lv_init lv0;
          dev = Dev (mPAddr m)
      in
      if map_of (id2pv lv) dev = None then (Some ErrNoPhysicalVolume, lv)
      else
        let newChunk0 = \<lparr>cLAddr = mLAddr m, cPAddrs = [mPAddr m], cSize = mSize m,
                         cSizeLocked = mSizeLocked m, cFlags = mFlags m\<rparr>;
            logicalOverlaps = rb_Subrange (chunk_cmpRange newChunk0) (chunks lv);
            numOverlappingStripes = sum_list (map (\<lambda>chunk. length (cPAddrs chunk)) logicalOverlaps)
        in
        case chunk_union newChunk0 logicalOverlaps of
          Inl err \<Rightarrow> (Some err, lv)
        | Inr newChunk \<Rightarrow>
            let newExt0 = \<lparr>ePAddr = Addr (mPAddr m), eLAddr = mLAddr m, eSize = mSize m,
                           eSizeLocked = mSizeLocked m, eFlags = mFlags m\<rparr>;
                physicalOverlaps = rb_Subrange (devext_cmpRange newExt0) (devexts lv dev)
            in
            case devext_union newExt0 physicalOverlaps of
              Inl err \<Rightarrow> (Some err, lv)
            | Inr newExt \<Rightarrow>
                if cFlags newChunk \<noteq> eFlags newExt then (Some Panic, lv)
                else if length physicalOverlaps < numOverlappingStripes
                        \<and> (case cFlags newChunk of
                               None \<Rightarrow> False
                             | Some val \<Rightarrow> val AND BLOCK_GROUP_RAID_MASK = 0)
                then (Some ErrMultipleStripes, lv)
                else if length physicalOverlaps > numOverlappingStripes then (Some Panic, lv)
                else if dryRun then (None, lv)
                else if logicalOverlaps = [newChunk] \<and> physicalOverlaps = [newExt] then (None, lv)
                else
                  let l2p = rb_Insert chunk_Compare newChunk
                              (fold (\<lambda>chunk t. rb_Delete (rb_Search (chunk_Compare chunk) t) t)
                                    logicalOverlaps (chunks lv));
                      exts = rb_Insert devext_Compare newExt
                              (fold (\<lambda>ext t. rb_Delete (rb_Search (devext_Compare ext) t) t)
                                    physicalOverlaps (devexts lv dev));
                      lv' = lv\<lparr>logical2physical := Some l2p,
                               physical2logical := Some (AList.update dev exts (devextTrees lv))\<rparr>
                  in if paranoid then (fsck lv', lv') else (None, lv'))"

definition CouldAddMapping :: "bool \<Rightarrow> LogicalVolume \<Rightarrow> Mapping \<Rightarrow> bool" where
  "CouldAddMapping paranoid lv m = (fst (addMapping paranoid lv m True) = None)"

definition AddMapping :: "bool \<Rightarrow> LogicalVolume \<Rightarrow> Mapping \<Rightarrow> error option \<times> LogicalVolume" where
  "AddMapping paranoid lv m = addMapping paranoid lv m False"

section \<open>Volumes used in the examples\<close>

text \<open>A device that reads zeroes everywhere, and a volume with it registered as device 1.\<close>

definition zeroDevice :: PhysicalVolume where
  "zeroDevice paddr = Some 0"

definition volume1 :: LogicalVolume where
  "volume1 = \<lparr>id2pv = [(1, zeroDevice)], logical2physical = Some [],
               physical2logical = Some [(1, [])]\<rparr>"

definition mkMapping ::
  "LogicalAddr \<Rightarrow> DeviceID \<Rightarrow> PhysicalAddr \<Rightarrow> AddrDelta \<Rightarrow> bool \<Rightarrow> BlockGroupFlags option \<Rightarrow> Mapping"
where
  "mkMapping laddr dev paddr sz locked flags =
     \<lparr>mLAddr = laddr, mPAddr = \<lparr>Dev = dev, Addr = paddr\<rparr>, mSize = sz,
      mSizeLocked = locked, mFlags = flags\<rparr>"

text \<open>
  \<open>volumeWith locked flags\<close>: device 1 with the single mapping of logical \<open>[0, 0x1000)\<close> to
  physical offset 0.
\<close>

definition volumeWith :: "bool \<Rightarrow> BlockGroupFlags option \<Rightarrow> LogicalVolume" where
  "volumeWith locked flags =
     \<lparr>id2pv = [(1, zeroDevice)],
      logical2physical = Some [\<lparr>cLAddr = 0, cPAddrs = [\<lparr>Dev = 1, Addr = 0\<rparr>], cSize = 0x1000,
                                 cSizeLocked = locked, cFlags = flags\<rparr>],
      physical2logical = Some [(1, [\<lparr>ePAddr = 0, eLAddr = 0, eSize = 0x1000,
                                      eSizeLocked = locked, eFlags = flags\<rparr>])]\<rparr>"

section \<open>The logical range of a chunk and the reachable volumes\<close>








section \<open>Resolving addresses\<close>

text \<open>
  \<^verbatim>\<open>Resolve\<close>: the chunk holding \<open>laddr\<close> is searched with the one-byte range at \<open>laddr\<close>; the
  result is the set of its stripes moved by the offset within the chunk (a list without
  duplicates here) and the length up to the end of the chunk.  \<^verbatim>\<open>UnResolve\<close> is the same
  on the extent tree of the device.
\<close>

definition Resolve :: "LogicalVolume \<Rightarrow> LogicalAddr \<Rightarrow> QualifiedPhysicalAddr list \<times> AddrDelta" where
  "Resolve lv laddr =
     (case rb_Search (chunk_cmpRange \<lparr>cLAddr = laddr, cPAddrs = [], cSize = 1,
                                      cSizeLocked = False, cFlags = None\<rparr>) (chunks lv) of
        None \<Rightarrow> ([], 0)
      | Some chunk \<Rightarrow>
          let offsetWithinChunk = laddr - cLAddr chunk
          in (remdups (map (\<lambda>stripe. \<lparr>Dev = Dev stripe, Addr = Addr stripe + offsetWithinChunk\<rparr>)
                           (cPAddrs chunk)),
              cSize chunk - offsetWithinChunk))"








section \<open>Reading through the volume\<close>

text \<open>
  What one stripe holds: the bytes that the device of a qualified physical address gives
  for a read of \<open>n\<close> bytes there.
\<close>

definition stripeBytes :: "LogicalVolume \<Rightarrow> nat \<Rightarrow> QualifiedPhysicalAddr \<Rightarrow> error + 8 word list" where
  "stripeBytes lv n paddr =
     (case map_of (id2pv lv) (Dev paddr) of
        None \<Rightarrow> Inl ErrNoDevice
      | Some dev \<Rightarrow> pv_ReadAt dev (Addr paddr) n)"

text \<open>
  The loop of \<^verbatim>\<open>maybeShortReadAt\<close> over the resolved addresses.  The first read goes into
  \<^verbatim>\<open>dat\<close> itself; every later one goes into a fresh buffer that is compared with \<^verbatim>\<open>dat\<close>.
\<close>

fun readStripes ::
  "LogicalVolume \<Rightarrow> 8 word list \<Rightarrow> bool \<Rightarrow> QualifiedPhysicalAddr list \<Rightarrow> error + 8 word list"
where
  "readStripes lv dat first [] = Inr dat"
| "readStripes lv dat first (paddr # rest) =
     (case map_of (id2pv lv) (Dev paddr) of
        None \<Rightarrow> Inl ErrNoDevice
      | Some dev \<Rightarrow>
          (case pv_ReadAt dev (Addr paddr) (length dat) of
             Inl err \<Rightarrow> Inl ErrIO
           | Inr buf \<Rightarrow>
               if \<not> first \<and> dat \<noteq> buf then Inl InconsistentStripes
               else readStripes lv (if first then buf else dat) False rest))"

text \<open>
  \<^verbatim>\<open>maybeShortReadAt(dat, laddr)\<close>; the result is the error, or what the call leaves in the
  (possibly shortened) buffer, whose length is the count it returns.  A Go map is ranged
  over in no fixed order: \<open>order\<close> is the order in which this call visits the resolved set.
  Slicing \<^verbatim>\<open>dat[:maxlen]\<close> with a negative \<open>maxlen\<close> panics.
\<close>

definition maybeShortReadAt ::
  "(QualifiedPhysicalAddr list \<Rightarrow> QualifiedPhysicalAddr list) \<Rightarrow> LogicalVolume \<Rightarrow>
   8 word list \<Rightarrow> LogicalAddr \<Rightarrow> error + 8 word list" where
  "maybeShortReadAt order lv dat laddr =
     (case Resolve lv laddr of
        (paddrs, maxlen) \<Rightarrow>
          if paddrs = [] then Inl ErrCouldNotMap
          else if sint maxlen < int (length dat) \<and> sint maxlen < 0 then Inl Panic
          else readStripes lv
                 (if sint maxlen < int (length dat) then take (nat (sint maxlen)) dat else dat)
                 True (order paddrs))"


subsection \<open>A short read makes progress\<close>

text \<open>These facts are what the termination of \<^verbatim>\<open>ReadAt\<close> rests on.\<close>

lemma sint_eq_iff64: "sint (a::64 word) = sint b \<longleftrightarrow> a = b"
  by (auto intro: signed_word_eqI)

lemma chunk_cmpRange_zero:
  "chunk_cmpRange a b = 0 \<longleftrightarrow>
     sint (cLAddr b) < sint (cLAddr a + cSize a) \<and> sint (cLAddr a) < sint (cLAddr b + cSize b)"
  by (auto simp: chunk_cmpRange_def)

lemma rb_Search_Some: "rb_Search p t = Some v \<Longrightarrow> v \<in> set t \<and> p v = 0"
  by (induction t) (auto simp: rb_Search_def split: if_splits)

lemma those_length: "those xs = Some ys \<Longrightarrow> length ys = length xs"
  by (induction xs arbitrary: ys) (auto split: option.splits)

lemma pv_ReadAt_length: "pv_ReadAt dev paddr n = Inr buf \<Longrightarrow> length buf = n"
  by (auto simp: pv_ReadAt_def split: option.splits dest: those_length)

lemma readStripes_length: "readStripes lv dat first ps = Inr got \<Longrightarrow> length got = length dat"
proof (induction lv dat first ps rule: readStripes.induct)
  case (1 lv dat first)
  then show ?case by simp
next
  case (2 lv dat first paddr rest)
  then show ?case
    by (auto split: option.splits sum.splits if_splits dest: pv_ReadAt_length)
qed

lemma Resolve_maxlen_nonzero:
  assumes "Resolve lv laddr = (paddrs, maxlen)" "paddrs \<noteq> []"
  shows "maxlen \<noteq> 0"
proof -
  let ?probe = "\<lparr>cLAddr = laddr, cPAddrs = [], cSize = 1, cSizeLocked = False, cFlags = None\<rparr>"
  from assms obtain chunk where s: "rb_Search (chunk_cmpRange ?probe) (chunks lv) = Some chunk"
    by (cases "rb_Search (chunk_cmpRange ?probe) (chunks lv)") (auto simp: Resolve_def)
  from rb_Search_Some[OF s] have "sint laddr < sint (cLAddr chunk + cSize chunk)"
    by (simp add: chunk_cmpRange_zero)
  then have "cLAddr chunk + cSize chunk \<noteq> laddr" by auto
  moreover from assms s have "maxlen = cSize chunk - (laddr - cLAddr chunk)"
    by (auto simp: Resolve_def Let_def)
  ultimately show ?thesis by (auto simp: algebra_simps)
qed

lemma maybeShortReadAt_progress:
  assumes "maybeShortReadAt order lv dat laddr = Inr got" "dat \<noteq> []"
  shows "0 < length got \<and> length got \<le> length dat"
proof -
  obtain paddrs maxlen where r: "Resolve lv laddr = (paddrs, maxlen)" by (cases "Resolve lv laddr")
  from assms r have ne: "paddrs \<noteq> []" by (auto simp: maybeShortReadAt_def split: if_splits)
  from Resolve_maxlen_nonzero[OF r ne] have "sint maxlen \<noteq> 0" by (metis sint_0 sint_eq_iff64)
  with assms r ne show ?thesis
    by (auto simp: maybeShortReadAt_def split: if_splits dest!: readStripes_length)
qed


text \<open>
  \<^verbatim>\<open>ReadAt(dat, laddr)\<close>: short reads are repeated until the buffer is full or one fails.
  The result is the bytes read (\<^verbatim>\<open>done\<close> is their number) and the error.
\<close>

function ReadAt ::
  "(QualifiedPhysicalAddr list \<Rightarrow> QualifiedPhysicalAddr list) \<Rightarrow> LogicalVolume \<Rightarrow>
   8 word list \<Rightarrow> LogicalAddr \<Rightarrow> 8 word list \<times> error option" where
  "ReadAt order lv dat laddr =
     (if dat = [] then ([], None)
      else case maybeShortReadAt order lv dat laddr of
             Inl err \<Rightarrow> ([], Some err)
           | Inr got \<Rightarrow>
               (case ReadAt order lv (drop (length got) dat) (laddr + of_nat (length got)) of
                  (later, err) \<Rightarrow> (got @ later, err)))"
  by pat_completeness auto
termination
proof (relation "measure (\<lambda>(order, lv, dat, laddr). length dat)")
  show "wf (measure (\<lambda>(order, lv, dat, laddr). length dat))" by simp
next
  fix order :: "QualifiedPhysicalAddr list \<Rightarrow> QualifiedPhysicalAddr list"
    and lv :: LogicalVolume and dat :: "8 word list" and laddr :: LogicalAddr and got :: "8 word list"
  assume "dat \<noteq> []" "maybeShortReadAt order lv dat laddr = Inr got"
  from maybeShortReadAt_progress[OF this(2,1)] \<open>dat \<noteq> []\<close>
  have "length dat - length got < length dat" by (cases dat; cases got) auto
  then show "((order, lv, drop (length got) dat, laddr + word_of_nat (length got)), order, lv, dat, laddr)
          \<in> measure (\<lambda>(order, lv, dat, laddr). length dat)"
    by simp
qed

declare ReadAt.simps [simp del]

section \<open>Mirrored volumes used in the examples\<close>

text \<open>
  Devices 1 and 2 with logical \<open>[0, 0x1000)\<close> mapped to offset 0 of both, flags RAID1
  (\<open>0x10\<close>); and a device that reads ones everywhere.
\<close>

definition volumeMirror :: "PhysicalVolume \<Rightarrow> PhysicalVolume \<Rightarrow> LogicalVolume" where
  "volumeMirror devA devB =
     \<lparr>id2pv = [(1, devA), (2, devB)],
      logical2physical = Some [\<lparr>cLAddr = 0, cPAddrs = [\<lparr>Dev = 1, Addr = 0\<rparr>, \<lparr>Dev = 2, Addr = 0\<rparr>],
                                 cSize = 0x1000, cSizeLocked = False, cFlags = Some 0x10\<rparr>],
      physical2logical = Some [(1, [\<lparr>ePAddr = 0, eLAddr = 0, eSize = 0x1000,
                                      eSizeLocked = False, eFlags = Some 0x10\<rparr>]),
                               (2, [\<lparr>ePAddr = 0, eLAddr = 0, eSize = 0x1000,
                                      eSizeLocked = False, eFlags = Some 0x10\<rparr>])]\<rparr>"

definition oneDevice :: PhysicalVolume where
  "oneDevice paddr = Some 1"

section \<open>The node graph\<close>

text \<open>
  Modelled from the spec: package \<^verbatim>\<open>graph\<close> is not among the sources at hand.  The
  specification describes the node graph as vertices keyed by logical address, each with
  its level, generation, owner and item keys, and a reverse adjacency list of keypointer
  edges.  Only the fields that \<^verbatim>\<open>tree.go\<close> reads are kept.  A Go map is an association list;
  reading an absent key gives the zero value.
\<close>

record Key =
  ObjectID :: ObjID
  ItemType :: "8 word"
  Offset :: "64 word"

record Node =
  Level :: "8 word"
  Generation :: Generation
  Owner :: ObjID
  Items :: "Key list"

record Edge =
  FromNode :: LogicalAddr

record Graph =
  Nodes :: "(LogicalAddr \<times> Node) list"
  EdgesTo :: "(LogicalAddr \<times> Edge list) list"

definition nodeAt :: "Graph \<Rightarrow> LogicalAddr \<Rightarrow> Node" where
  "nodeAt g addr =
     (case map_of (Nodes g) addr of
        None \<Rightarrow> \<lparr>Level = 0, Generation = 0, Owner = 0, Items = []\<rparr>
      | Some node \<Rightarrow> node)"

definition edgesTo :: "Graph \<Rightarrow> LogicalAddr \<Rightarrow> Edge list" where
  "edgesTo g addr = (case map_of (EdgesTo g) addr of None \<Rightarrow> [] | Some kps \<Rightarrow> kps)"

text \<open>
  \<^verbatim>\<open>containers.Set[LogicalAddr]\<close> is a list without duplicates: \<^verbatim>\<open>Has\<close> is membership,
  \<^verbatim>\<open>Insert\<close> is \<^const>\<open>List.insert\<close>, \<^verbatim>\<open>InsertFrom\<close> inserts every member of another set, and
  \<^verbatim>\<open>maps.SortedKeys\<close> sorts by the signed value of the address.
\<close>

type_synonym AddrSet = "LogicalAddr list"

definition InsertFrom :: "AddrSet \<Rightarrow> AddrSet \<Rightarrow> AddrSet" where
  "InsertFrom s other = fold List.insert other s"

definition SortedKeys :: "LogicalAddr list \<Rightarrow> LogicalAddr list" where
  "SortedKeys ks = sort_key sint ks"

section \<open>Leaves and the roots that reach them\<close>

text \<open>
  \<^verbatim>\<open>indexNode\<close>, with the loop over the owner-OK keypointers into the node as
  \<open>indexEdges\<close>.  The index is the Go map from a node to the set of its roots (\<^verbatim>\<open>nil\<close> is the
  empty set).  A node met again on the stack is the \<^verbatim>\<open>panic("loop")\<close>.  The context is taken
  as never cancelled, and progress reporting is left out.
\<close>

function indexNode ::
    "Graph \<Rightarrow> RebuiltTree \<Rightarrow> LogicalAddr \<Rightarrow> (LogicalAddr \<times> AddrSet) list \<Rightarrow> LogicalAddr list \<Rightarrow>
     error + (LogicalAddr \<times> AddrSet) list"
  and indexEdges ::
    "Graph \<Rightarrow> RebuiltTree \<Rightarrow> Edge list \<Rightarrow> (LogicalAddr \<times> AddrSet) list \<Rightarrow> LogicalAddr list \<Rightarrow>
     AddrSet \<Rightarrow> error + ((LogicalAddr \<times> AddrSet) list \<times> AddrSet)"
where
  "indexNode g tree node index stack =
     (if map_of index node \<noteq> None then Inr index
      else if node \<in> set stack then Inl Panic
      else if \<not> isOwnerOK tree (Owner (nodeAt g node)) (Generation (nodeAt g node))
      then Inr (AList.update node [] index)
      else
        case indexEdges g tree
               (filter (\<lambda>kp. isOwnerOK tree (Owner (nodeAt g (FromNode kp)))
                                       (Generation (nodeAt g (FromNode kp))))
                       (edgesTo g node))
               index (stack @ [node]) [] of
          Inl err \<Rightarrow> Inl err
        | Inr (index', roots) \<Rightarrow>
            Inr (AList.update node (if roots = [] then [node] else roots) index'))"
| "indexEdges g tree [] index stack roots = Inr (index, roots)"
| "indexEdges g tree (kp # kps) index stack roots =
     (case indexNode g tree (FromNode kp) index stack of
        Inl err \<Rightarrow> Inl err
      | Inr index' \<Rightarrow>
          (case map_of index' (FromNode kp) of
             None \<Rightarrow> indexEdges g tree kps index' stack roots
           | Some from_roots \<Rightarrow>
               indexEdges g tree kps index' stack
                 (if from_roots \<noteq> [] then InsertFrom roots from_roots else roots)))"
  by pat_completeness auto
termination
proof (relation "(\<lambda>x. case x of
            Inl (g, tree, node, index, stack) \<Rightarrow> card (UNIV - set stack)
          | Inr (g, tree, kps, index, stack, roots) \<Rightarrow> card (UNIV - set stack))
        <*mlex*> (\<lambda>x. case x of
            Inl (g, tree, node, index, stack) \<Rightarrow> 0
          | Inr (g, tree, kps, index, stack, roots) \<Rightarrow> Suc (length kps)) <*mlex*> {}",
       goal_cases)
  case 1
  then show ?case by (simp add: wf_mlex)
next
  case (2 g tree node index stack)
  have "finite (UNIV - set stack)" by simp
  moreover from 2 have "UNIV - set (stack @ [node]) \<subset> UNIV - set stack" by auto
  ultimately have "card (UNIV - set (stack @ [node])) < card (UNIV - set stack)"
    by (rule psubset_card_mono)
  then show ?case by (simp add: mlex_prod_def)
next
  case 3
  then show ?case by (simp add: mlex_prod_def)
next
  case 4
  then show ?case by (simp add: mlex_prod_def)
next
  case 5
  then show ?case by (simp add: mlex_prod_def)
qed


declare indexNode.simps [simp del]

text \<open>
  \<^verbatim>\<open>leafToRoots\<close>: every node of the graph is indexed, in the order of its address, and
  the leaves (level 0) that have roots are kept.  The Go code memoises the result per
  tree id; the graph does not change, so the function is the memo.
\<close>

fun indexNodes ::
  "Graph \<Rightarrow> RebuiltTree \<Rightarrow> LogicalAddr list \<Rightarrow> (LogicalAddr \<times> AddrSet) list \<Rightarrow>
   error + (LogicalAddr \<times> AddrSet) list" where
  "indexNodes g tree [] nodeToRoots = Inr nodeToRoots"
| "indexNodes g tree (node # nodes) nodeToRoots =
     (case indexNode g tree node nodeToRoots [] of
        Inl err \<Rightarrow> Inl err
      | Inr nodeToRoots' \<Rightarrow> indexNodes g tree nodes nodeToRoots')"

definition leafToRoots :: "Graph \<Rightarrow> RebuiltTree \<Rightarrow> error + (LogicalAddr \<times> AddrSet) list" where
  "leafToRoots g tree =
     (case indexNodes g tree (SortedKeys (map fst (Nodes g))) [] of
        Inl err \<Rightarrow> Inl err
      | Inr nodeToRoots \<Rightarrow>
          Inr (filter (\<lambda>(node, roots). Level (nodeAt g node) = 0 \<and> roots \<noteq> []) nodeToRoots))"

section \<open>The mutable state of a rebuilt tree\<close>

text \<open>
  \<^verbatim>\<open>keyio.ItemPtr\<close>, and \<^verbatim>\<open>itemIndex\<close> with its \<^verbatim>\<open>SortedMap\<close> as a map (\<^verbatim>\<open>Load\<close> reads it,
  \<^verbatim>\<open>Store\<close> writes it).
\<close>

record ItemPtr =
  ptrNode :: LogicalAddr
  ptrIdx :: nat

record itemIndex =
  NumDups :: nat
  ixLeafs :: AddrSet
  ixItems :: "Key \<rightharpoonup> ItemPtr"

definition newItemIndex :: itemIndex where
  "newItemIndex = \<lparr>NumDups = 0, ixLeafs = [], ixItems = Map.empty\<rparr>"

text \<open>
  The fields \<^verbatim>\<open>Roots\<close> and \<^verbatim>\<open>Leafs\<close> of a \<^verbatim>\<open>RebuiltTree\<close>, together with the entries that
  the forrest's two caches \<^verbatim>\<open>incItems\<close> and \<^verbatim>\<open>allItems\<close> hold for the tree's id (\<open>None\<close>
  when the cache has no entry, as at the start or after an eviction).
\<close>

record TreeState =
  Roots :: AddrSet
  Leafs :: AddrSet
  incItems :: "itemIndex option"
  allItems :: "itemIndex option"

definition newTreeState :: TreeState where
  "newTreeState = \<lparr>Roots = [], Leafs = [], incItems = None, allItems = None\<rparr>"

text \<open>
  \<^verbatim>\<open>AddRoot\<close>; \<open>rootsOf ltr leaf\<close> is the Go \<^verbatim>\<open>leafToRoots[leaf]\<close>, the empty set for an
  absent key.  The result is the new state and the leaves added, in order; the calls of
  \<^verbatim>\<open>cbAddedItem\<close> are, for each added leaf in turn, one call per item key of the leaf.
\<close>

definition rootsOf :: "(LogicalAddr \<times> AddrSet) list \<Rightarrow> LogicalAddr \<Rightarrow> AddrSet" where
  "rootsOf ltr leaf = (case map_of ltr leaf of None \<Rightarrow> [] | Some roots \<Rightarrow> roots)"

fun AddRoot_leafs ::
  "(LogicalAddr \<times> AddrSet) list \<Rightarrow> LogicalAddr \<Rightarrow> LogicalAddr list \<Rightarrow> AddrSet \<Rightarrow>
   LogicalAddr list \<Rightarrow> AddrSet \<times> LogicalAddr list" where
  "AddRoot_leafs ltr rootNode [] leafs added = (leafs, added)"
| "AddRoot_leafs ltr rootNode (leaf # rest) leafs added =
     (if leaf \<in> set leafs \<or> rootNode \<notin> set (rootsOf ltr leaf)
      then AddRoot_leafs ltr rootNode rest leafs added
      else AddRoot_leafs ltr rootNode rest (List.insert leaf leafs) (added @ [leaf]))"

definition AddRoot ::
  "Graph \<Rightarrow> RebuiltTree \<Rightarrow> TreeState \<Rightarrow> LogicalAddr \<Rightarrow> error + (TreeState \<times> LogicalAddr list)" where
  "AddRoot g tree st rootNode =
     (case leafToRoots g tree of
        Inl err \<Rightarrow> Inl err
      | Inr ltr \<Rightarrow>
          (case AddRoot_leafs ltr rootNode (SortedKeys (map fst ltr)) (Leafs st) [] of
             (leafs, added) \<Rightarrow>
               Inr (st\<lparr>Roots := List.insert rootNode (Roots st), Leafs := leafs\<rparr>, added)))"

definition cbAddedItem_calls :: "Graph \<Rightarrow> RebuiltTree \<Rightarrow> LogicalAddr list \<Rightarrow> (ObjID \<times> Key) list" where
  "cbAddedItem_calls g tree added =
     concat (map (\<lambda>leaf. map (\<lambda>itemKey. (ID tree, itemKey)) (Items (nodeAt g leaf))) added)"

text \<open>\<^verbatim>\<open>COWDistance\<close>, the loop with its counter.\<close>

fun COWDistance_loop :: "RebuiltTree \<Rightarrow> ObjID \<Rightarrow> nat \<Rightarrow> nat \<times> bool" where
  "COWDistance_loop (RebuiltTree tid pgen parent) parentID dist =
     (if parentID = tid then (dist, True)
      else (case parent of
              None \<Rightarrow> (0, False)
            | Some p \<Rightarrow> COWDistance_loop p parentID (dist + 1)))"

definition COWDistance :: "RebuiltTree \<Rightarrow> ObjID \<Rightarrow> nat \<times> bool" where
  "COWDistance tree parentID = COWDistance_loop tree parentID 0"

text \<open>\<^verbatim>\<open>shouldReplace\<close>; equal distance and equal generation is the panic.\<close>

definition shouldReplace :: "Graph \<Rightarrow> RebuiltTree \<Rightarrow> LogicalAddr \<Rightarrow> LogicalAddr \<Rightarrow> error + bool" where
  "shouldReplace g tree oldNode newNode =
     (let oldDist = fst (COWDistance tree (Owner (nodeAt g oldNode)));
          newDist = fst (COWDistance tree (Owner (nodeAt g newNode)))
      in if newDist < oldDist then Inr True
         else if newDist > oldDist then Inr False
         else
           let oldGen = Generation (nodeAt g oldNode);
               newGen = Generation (nodeAt g newNode)
           in if newGen > oldGen then Inr True
              else if newGen < oldGen then Inr False
              else Inl Panic)"

text \<open>
  \<^verbatim>\<open>items\<close>: the loop over the items of one leaf (\<open>j\<close> is the slot), the loop over the
  leaves, and the entry point, which takes the index from the cache or starts a new one.
\<close>

fun items_leaf ::
  "Graph \<Rightarrow> RebuiltTree \<Rightarrow> LogicalAddr \<Rightarrow> nat \<Rightarrow> Key list \<Rightarrow> itemIndex \<Rightarrow> error + itemIndex" where
  "items_leaf g tree leaf j [] index = Inr index"
| "items_leaf g tree leaf j (itemKey # rest) index =
     (let newPtr = \<lparr>ptrNode = leaf, ptrIdx = j\<rparr>
      in case ixItems index itemKey of
           None \<Rightarrow>
             items_leaf g tree leaf (Suc j) rest
               (index\<lparr>ixItems := (ixItems index)(itemKey \<mapsto> newPtr)\<rparr>)
         | Some oldPtr \<Rightarrow>
             (case shouldReplace g tree (ptrNode oldPtr) (ptrNode newPtr) of
                Inl err \<Rightarrow> Inl err
              | Inr replace \<Rightarrow>
                  items_leaf g tree leaf (Suc j) rest
                    (index\<lparr>NumDups := NumDups index + 1,
                           ixItems := (if replace then (ixItems index)(itemKey \<mapsto> newPtr)
                                       else ixItems index)\<rparr>)))"

fun items_leafs ::
  "Graph \<Rightarrow> RebuiltTree \<Rightarrow> LogicalAddr list \<Rightarrow> itemIndex \<Rightarrow> error + itemIndex" where
  "items_leafs g tree [] index = Inr index"
| "items_leafs g tree (leaf # leafs) index =
     (if leaf \<in> set (ixLeafs index) then items_leafs g tree leafs index
      else
        case items_leaf g tree leaf 0 (Items (nodeAt g leaf))
               (index\<lparr>ixLeafs := List.insert leaf (ixLeafs index)\<rparr>) of
          Inl err \<Rightarrow> Inl err
        | Inr index' \<Rightarrow> items_leafs g tree leafs index')"

definition items ::
  "Graph \<Rightarrow> RebuiltTree \<Rightarrow> itemIndex option \<Rightarrow> LogicalAddr list \<Rightarrow> error + itemIndex" where
  "items g tree cache leafs =
     items_leafs g tree leafs (case cache of None \<Rightarrow> newItemIndex | Some index \<Rightarrow> index)"

text \<open>
  \<^verbatim>\<open>Items\<close> and \<^verbatim>\<open>PotentialItems\<close>: the returned map, and the state with the cache entry
  that the call leaves.
\<close>

definition ItemsOf ::
  "Graph \<Rightarrow> RebuiltTree \<Rightarrow> TreeState \<Rightarrow> error + ((Key \<rightharpoonup> ItemPtr) \<times> TreeState)" where
  "ItemsOf g tree st =
     (case items g tree (incItems st) (SortedKeys (Leafs st)) of
        Inl err \<Rightarrow> Inl err
      | Inr index \<Rightarrow> Inr (ixItems index, st\<lparr>incItems := Some index\<rparr>))"

definition PotentialItems ::
  "Graph \<Rightarrow> RebuiltTree \<Rightarrow> TreeState \<Rightarrow> error + ((Key \<rightharpoonup> ItemPtr) \<times> TreeState)" where
  "PotentialItems g tree st =
     (case leafToRoots g tree of
        Inl err \<Rightarrow> Inl err
      | Inr ltr \<Rightarrow>
          (case items g tree (allItems st) (SortedKeys (map fst ltr)) of
             Inl err \<Rightarrow> Inl err
           | Inr index \<Rightarrow> Inr (ixItems index, st\<lparr>allItems := Some index\<rparr>)))"

text \<open>
  The states of a tree: it starts with no roots, no leaves and empty caches; roots are
  added, the two item maps are asked for, and a cache may drop its entry at any time.
\<close>

inductive reachableTree :: "Graph \<Rightarrow> RebuiltTree \<Rightarrow> TreeState \<Rightarrow> bool" for g tree where
  reachableTree_new: "reachableTree g tree newTreeState"
| reachableTree_AddRoot:
    "reachableTree g tree st \<Longrightarrow> AddRoot g tree st rootNode = Inr (st', added) \<Longrightarrow> reachableTree g tree st'"
| reachableTree_Items:
    "reachableTree g tree st \<Longrightarrow> ItemsOf g tree st = Inr (m, st') \<Longrightarrow> reachableTree g tree st'"
| reachableTree_PotentialItems:
    "reachableTree g tree st \<Longrightarrow> PotentialItems g tree st = Inr (m, st') \<Longrightarrow> reachableTree g tree st'"
| reachableTree_evict_incItems:
    "reachableTree g tree st \<Longrightarrow> reachableTree g tree (st\<lparr>incItems := None\<rparr>)"
| reachableTree_evict_allItems:
    "reachableTree g tree st \<Longrightarrow> reachableTree g tree (st\<lparr>allItems := None\<rparr>)"

text \<open>A sequence of \<^verbatim>\<open>AddRoot\<close> calls, with the leaves added by all of them.\<close>

fun AddRoots ::
  "Graph \<Rightarrow> RebuiltTree \<Rightarrow> TreeState \<Rightarrow> LogicalAddr list \<Rightarrow> error + (TreeState \<times> LogicalAddr list)" where
  "AddRoots g tree st [] = Inr (st, [])"
| "AddRoots g tree st (rootNode # rest) =
     (case AddRoot g tree st rootNode of
        Inl err \<Rightarrow> Inl err
      | Inr (st', added) \<Rightarrow>
          (case AddRoots g tree st' rest of
             Inl err \<Rightarrow> Inl err
           | Inr (st'', added') \<Rightarrow> Inr (st'', added @ added')))"

section \<open>What an item index holds\<close>

text \<open>
  The key in a slot of a leaf; the order in which \<^const>\<open>shouldReplace\<close> prefers one leaf to
  another (smaller distance, then larger generation); the slots of a set of leaves.
\<close>

definition keyAt :: "Graph \<Rightarrow> ItemPtr \<Rightarrow> Key" where
  "keyAt g q = Items (nodeAt g (ptrNode q)) ! ptrIdx q"

definition prefers :: "Graph \<Rightarrow> RebuiltTree \<Rightarrow> LogicalAddr \<Rightarrow> LogicalAddr \<Rightarrow> bool" where
  "prefers g tree a b =
     (let aDist = fst (COWDistance tree (Owner (nodeAt g a)));
          bDist = fst (COWDistance tree (Owner (nodeAt g b)))
      in aDist < bDist
         \<or> (aDist = bDist \<and> Generation (nodeAt g a) > Generation (nodeAt g b)))"

definition slotsOf :: "Graph \<Rightarrow> AddrSet \<Rightarrow> ItemPtr set" where
  "slotsOf g leafs =
     {q. ptrNode q \<in> set leafs \<and> ptrIdx q < length (Items (nodeAt g (ptrNode q)))}"

text \<open>
  An index over the slots \<open>P\<close> is right when every entry is one of the slots, holds a key
  found there, and is preferred to every other slot with that key; and every key of a slot
  has an entry.
\<close>

definition indexInv :: "Graph \<Rightarrow> RebuiltTree \<Rightarrow> ItemPtr set \<Rightarrow> (Key \<rightharpoonup> ItemPtr) \<Rightarrow> bool" where
  "indexInv g tree P m =
     ((\<forall>k p. m k = Some p \<longrightarrow>
          p \<in> P \<and> keyAt g p = k
          \<and> (\<forall>q\<in>P. keyAt g q = k \<longrightarrow> q = p \<or> prefers g tree (ptrNode p) (ptrNode q)))
      \<and> (\<forall>q\<in>P. m (keyAt g q) \<noteq> None))"

definition indexOK :: "Graph \<Rightarrow> RebuiltTree \<Rightarrow> itemIndex \<Rightarrow> bool" where
  "indexOK g tree index = indexInv g tree (slotsOf g (ixLeafs index)) (ixItems index)"

definition cacheOK :: "Graph \<Rightarrow> RebuiltTree \<Rightarrow> itemIndex option \<Rightarrow> bool" where
  "cacheOK g tree cache = (case cache of None \<Rightarrow> True | Some index \<Rightarrow> indexOK g tree index)"

definition cacheLeafs :: "itemIndex option \<Rightarrow> LogicalAddr set" where
  "cacheLeafs cache = (case cache of None \<Rightarrow> {} | Some index \<Rightarrow> set (ixLeafs index))"

text \<open>The pointer that a returned index gives for a key (none if the call panicked).\<close>

definition lookupItem :: "error + ((Key \<rightharpoonup> ItemPtr) \<times> TreeState) \<Rightarrow> Key \<Rightarrow> ItemPtr option" where
  "lookupItem result k = (case result of Inl err \<Rightarrow> None | Inr (m, st) \<Rightarrow> m k)"

section \<open>Invariants of the states of a tree\<close>

text \<open>
  Every leaf that one of the tree's roots reaches is among its leaves; the leaves are
  leaves of \<^const>\<open>leafToRoots\<close> (or there are none, if that panics); and each cache entry is a
  right index over leaves of the tree (\<^verbatim>\<open>incItems\<close>) or of \<^const>\<open>leafToRoots\<close> (\<^verbatim>\<open>allItems\<close>).
\<close>

definition covered :: "(LogicalAddr \<times> AddrSet) list \<Rightarrow> TreeState \<Rightarrow> bool" where
  "covered ltr st =
     (\<forall>leaf\<in>fst ` set ltr. \<forall>r\<in>set (Roots st). r \<in> set (rootsOf ltr leaf) \<longrightarrow> leaf \<in> set (Leafs st))"

definition treeInv :: "Graph \<Rightarrow> RebuiltTree \<Rightarrow> TreeState \<Rightarrow> bool" where
  "treeInv g tree st =
     (case leafToRoots g tree of
        Inl err \<Rightarrow> Roots st = [] \<and> Leafs st = []
      | Inr ltr \<Rightarrow> covered ltr st \<and> set (Leafs st) \<subseteq> fst ` set ltr)"

definition cacheInv :: "Graph \<Rightarrow> RebuiltTree \<Rightarrow> TreeState \<Rightarrow> bool" where
  "cacheInv g tree st =
     (cacheOK g tree (incItems st) \<and> cacheLeafs (incItems st) \<subseteq> set (Leafs st)
      \<and> cacheOK g tree (allItems st)
      \<and> (\<forall>ltr. leafToRoots g tree = Inr ltr \<longrightarrow> cacheLeafs (allItems st) \<subseteq> fst ` set ltr))"

section \<open>A graph used in the examples\<close>

text \<open>
  Tree 5 has no parent.  Leaves 100 and 200, both owned by tree 5, of generations 10 and 20,
  each hold the one key \<open>(256, 1, 0)\<close>; internal node 300 (level 1, generation 20, owner 5)
  points to leaf 200.
\<close>

definition exampleKey :: Key where
  "exampleKey = \<lparr>ObjectID = 256, ItemType = 1, Offset = 0\<rparr>"

definition exampleGraph :: Graph where
  "exampleGraph =
     \<lparr>Nodes = [(100, \<lparr>Level = 0, Generation = 10, Owner = 5, Items = [exampleKey]\<rparr>),
               (200, \<lparr>Level = 0, Generation = 20, Owner = 5, Items = [exampleKey]\<rparr>),
               (300, \<lparr>Level = 1, Generation = 20, Owner = 5, Items = []\<rparr>)],
      EdgesTo = [(200, [\<lparr>FromNode = 300\<rparr>])]\<rparr>"

definition exampleTree :: RebuiltTree where
  "exampleTree = RebuiltTree 5 0 None"

text \<open>The state of tree 5 after \<^verbatim>\<open>AddRoot(100)\<close>.\<close>

definition exampleState :: TreeState where
  "exampleState = \<lparr>Roots = [100], Leafs = [100], incItems = None, allItems = None\<rparr>"

section \<open>The owner test\<close>

lemma list_ex_map_links:
  "list_ex (\<lambda>(gs, a). P gs a) (map (\<lambda>(gs, a). (g # gs, a)) xs) =
   list_ex (\<lambda>(gs, a). P (g # gs) a) xs"
  by (induction xs) auto

lemma isOwnerOK_sufficient:
  "owner = ID t \<or> reachesBelow t owner gen \<Longrightarrow> isOwnerOK t owner gen"
proof (induction t owner gen rule: isOwnerOK.induct)
  case (1 tid pgen parent owner gen)
  show ?case
  proof (cases parent)
    case None
    with "1.prems" show ?thesis by (simp add: reachesBelow_def)
  next
    case (Some p)
    show ?thesis
    proof (cases "owner = tid")
      case True
      then show ?thesis by simp
    next
      case False
      with "1.prems" Some have r: "(ID p = owner \<and> gen < pgen) \<or>
          list_ex (\<lambda>(gs, a). ID a = owner \<and> gen < pgen \<and> list_all (\<lambda>g. gen < g) gs)
            (ancestorLinks p)"
        by (simp add: reachesBelow_def list_ex_map_links)
      then have lt: "gen < pgen" by (auto simp: list_ex_iff)
      from r have "owner = ID p \<or> reachesBelow p owner gen"
        by (auto simp: reachesBelow_def list_ex_iff)
      with "1.IH"[OF False Some] lt have "isOwnerOK p owner gen" by simp
      with False Some lt show ?thesis by simp
    qed
  qed
qed

lemma isOwnerOK_necessary:
  "isOwnerOK t owner gen \<Longrightarrow> owner = ID t \<or> reachesUpTo t owner gen"
proof (induction t owner gen rule: isOwnerOK.induct)
  case (1 tid pgen parent owner gen)
  show ?case
  proof (cases "owner = tid")
    case True
    then show ?thesis by simp
  next
    case False
    with "1.prems" obtain p where Some: "parent = Some p" and lt: "gen < pgen"
      and ok: "isOwnerOK p owner gen"
      by (auto split: option.splits if_splits)
    from "1.IH"[OF False Some] lt ok have "owner = ID p \<or> reachesUpTo p owner gen" by simp
    then have "ID p = owner \<or>
        list_ex (\<lambda>(gs, a). ID a = owner \<and> list_all (\<lambda>g. gen \<le> g) gs) (ancestorLinks p)"
      by (auto simp: reachesUpTo_def)
    then have "(ID p = owner \<and> gen \<le> pgen) \<or>
        list_ex (\<lambda>(gs, a). ID a = owner \<and> gen \<le> pgen \<and> list_all (\<lambda>g. gen \<le> g) gs)
          (ancestorLinks p)"
      using lt by (auto simp: list_ex_iff)
    then show ?thesis using Some
      by (simp add: reachesUpTo_def list_ex_map_links)
  qed
qed

text \<open>
  Claim C1, as the code has it.  \<^const>\<open>isOwnerOK\<close> accepts \<open>(owner, gen)\<close> in a tree when
  the owner is the tree's own id (whatever the generation), or when some proper ancestor
  has that id and the generation is strictly below the \<^verbatim>\<open>ParentGen\<close> of every tree that the
  walk passes before reaching it; and it accepts only when the owner is the tree's own id
  or some proper ancestor has that id with the generation at most each of those
  \<^verbatim>\<open>ParentGen\<close> values.  A generation equal to one of them is promised neither way.
\<close>

theorem isOwnerOK_between:
  "(owner = ID t \<or> reachesBelow t owner gen \<longrightarrow> isOwnerOK t owner gen) \<and>
   (isOwnerOK t owner gen \<longrightarrow> owner = ID t \<or> reachesUpTo t owner gen)"
  using isOwnerOK_sufficient isOwnerOK_necessary by blast

theorem isOwnerOK_between_witness:
  "reachesBelow (RebuiltTree 257 10 (Some (RebuiltTree 5 0 None))) 5 9 \<and>
   isOwnerOK (RebuiltTree 257 10 (Some (RebuiltTree 5 0 None))) 5 9 \<and>
   (5 = ID (RebuiltTree 257 10 (Some (RebuiltTree 5 0 None)))
    \<or> reachesUpTo (RebuiltTree 257 10 (Some (RebuiltTree 5 0 None))) 5 9)"
proof -
  let ?t = "RebuiltTree 257 10 (Some (RebuiltTree 5 0 None))"
  have below: "reachesBelow ?t 5 9" by (simp add: reachesBelow_def)
  then have hyp: "5 = ID ?t \<or> reachesBelow ?t 5 9" by simp
  have ok: "isOwnerOK ?t 5 9"
    by (rule isOwnerOK_between [of 5 ?t 9, THEN conjunct1, THEN mp, OF hyp])
  have upto: "5 = ID ?t \<or> reachesUpTo ?t 5 9"
    by (rule isOwnerOK_between [of 5 ?t 9, THEN conjunct2, THEN mp, OF ok])
  from below ok upto show ?thesis by blast
qed

text \<open>
  Claim C1 as stated fails, under either reading of its words.  Tree 257 was snapshotted
  at generation 5 from tree 256, that at generation 10 from tree 255, and that at
  generation 20 from tree 5.  A node of owner 255 and generation 7 satisfies the stated
  condition (7 is at most 20, the \<^verbatim>\<open>ParentGen\<close> of ancestor 255, and at most 10, the
  generation at which 256 was snapshotted from it) but is refused, because the walk
  first compares the generation with the \<^verbatim>\<open>ParentGen\<close> 5 of tree 257.  And with the first two
  snapshots both taken at generation 10, a node of owner 256 and generation exactly 10 is
  refused as well.
\<close>

theorem isOwnerOK_spec_counterexample:
  "\<not> isOwnerOK (RebuiltTree 257 5 (Some (RebuiltTree 256 10 (Some (RebuiltTree 255 20
          (Some (RebuiltTree 5 0 None))))))) 255 7
   \<and> ownerOK_spec (RebuiltTree 257 5 (Some (RebuiltTree 256 10 (Some (RebuiltTree 255 20
          (Some (RebuiltTree 5 0 None))))))) 255 7
   \<and> ownerOK_spec_link (RebuiltTree 257 5 (Some (RebuiltTree 256 10 (Some (RebuiltTree 255 20
          (Some (RebuiltTree 5 0 None))))))) 255 7
   \<and> \<not> isOwnerOK (RebuiltTree 257 10 (Some (RebuiltTree 256 10 (Some (RebuiltTree 5 0 None))))) 256 10
   \<and> ownerOK_spec (RebuiltTree 257 10 (Some (RebuiltTree 256 10 (Some (RebuiltTree 5 0 None))))) 256 10
   \<and> ownerOK_spec_link (RebuiltTree 257 10 (Some (RebuiltTree 256 10 (Some (RebuiltTree 5 0 None))))) 256 10"
  by (simp add: ownerOK_spec_def ownerOK_spec_link_def)

section \<open>The mapping engine on concrete volumes\<close>

lemmas lvm_eval =
  AddMapping_def addMapping_def AddPhysicalVolume_def newLogicalVolume_def lv_init_def
  chunks_def devextTrees_def devexts_def mkMapping_def
  rb_Subrange_def rb_Search_def rb_Insert_def rb_Delete_def rb_Equal_def
  chunk_cmpRange_def chunk_Compare_def devext_cmpRange_def devext_Compare_def
  chunk_union_def devext_union_def addr_Min_def addr_Max_def sortedKeys_def qpa_Cmp_def
  BLOCK_GROUP_RAID_MASK_def fsck_def Let_def


lemma volumeWith_added:
  "AddMapping False volume1 (mkMapping 0 1 0 0x1000 locked flags) = (None, volumeWith locked flags)"
  by (cases flags; simp add: volume1_def volumeWith_def; simp add: lvm_eval)

lemma lv_init_volumeWith: "lv_init (volumeWith locked flags) = volumeWith locked flags"
  by (simp add: volumeWith_def lv_init_def chunks_def devextTrees_def)

section \<open>Errors of the unions\<close>

lemma union_LAddr_first_never_fails: "union_LAddr True p l exts \<noteq> Inl DevExtConflict"
  by (induction exts arbitrary: l) (auto simp: Let_def)

lemma union_Flags_error: "union_Flags ret fs = Inl e \<Longrightarrow> e = FlagsConflict"
  by (induction ret fs rule: union_Flags.induct) (auto simp: Let_def split: if_splits)

lemma devext_union_never_DevExtConflict: "devext_union a rest \<noteq> Inl DevExtConflict"
  using union_LAddr_first_never_fails union_Flags_error
  by (fastforce simp: devext_union_def Let_def split: if_splits sum.splits)

text \<open>
  Claim C2 on the code.  On device 1, logical \<open>[0, 0x1000)\<close> is mapped to physical
  \<open>[0, 0x1000)\<close>.  The candidate maps logical \<open>0x800\<close> to physical \<open>0x100\<close> with size
  \<open>0x1000\<close>: its device extent overlaps the existing one, and the two back-project to the
  logical addresses \<open>0x700\<close> and \<open>0\<close>.  \<^const>\<open>AddMapping\<close> returns no error and applies the
  candidate: the extent index now holds one extent of size \<open>0x1100\<close> with logical address
  \<open>0\<close>, and the chunk has two stripes.
\<close>

theorem AddMapping_laddr_disagreement_accepted:
  "AddMapping False (volumeWith False None) (mkMapping 0x800 1 0x100 0x1000 False None) =
   (None,
    \<lparr>id2pv = [(1, zeroDevice)],
     logical2physical = Some [\<lparr>cLAddr = 0,
         cPAddrs = [\<lparr>Dev = 1, Addr = - 0x700\<rparr>, \<lparr>Dev = 1, Addr = 0\<rparr>],
         cSize = 0x1800, cSizeLocked = False, cFlags = None\<rparr>],
     physical2logical = Some [(1, [\<lparr>ePAddr = 0, eLAddr = 0, eSize = 0x1100,
         eSizeLocked = False, eFlags = None\<rparr>])]\<rparr>)"
  by (simp add: volumeWith_def) (simp add: lvm_eval)

text \<open>
  Claim C3 on the code.  After the single successful call
  \<^verbatim>\<open>AddMapping{laddr=0, paddr=(1,0), size=0x1000, size_locked=true}\<close> on a volume with device
  1 registered, \<^const>\<open>fsck\<close> reports a skew: the extent it rebuilds has \<^verbatim>\<open>SizeLocked\<close> false,
  the extent \<^const>\<open>AddMapping\<close> stored has it true.  With \<^verbatim>\<open>PARANOID\<close> set the same call
  returns that error itself, after having stored the mapping.
\<close>

theorem fsck_fails_after_size_locked_AddMapping:
  "AddMapping False volume1 (mkMapping 0 1 0 0x1000 True None) = (None, volumeWith True None)
   \<and> fsck (volumeWith True None) = Some ErrFsckSkew
   \<and> AddMapping True volume1 (mkMapping 0 1 0 0x1000 True None)
       = (Some ErrFsckSkew, volumeWith True None)"
proof -
  have a: "AddMapping False volume1 (mkMapping 0 1 0 0x1000 True None) = (None, volumeWith True None)"
    by (rule volumeWith_added)
  have b: "fsck (volumeWith True None) = Some ErrFsckSkew"
    by (simp add: volumeWith_def) (simp add: lvm_eval)
  have c: "AddMapping True volume1 (mkMapping 0 1 0 0x1000 True None)
       = (Some ErrFsckSkew, volumeWith True None)"
    by (simp add: volume1_def volumeWith_def) (simp add: lvm_eval)
  from a b c show ?thesis by simp
qed

text \<open>
  Claim C7 on the code.  On the volume of the example for C2, now with flags \<open>1\<close> (DATA, no
  RAID or DUP bit) on every mapping, the mapping of logical \<open>0x800\<close> to physical \<open>0x100\<close> is
  accepted; the same call again is refused, since the chunk now has two stripes on one
  device extent and flags that do not allow replication.
\<close>

theorem AddMapping_twice_refused:
  "fst (AddMapping False (volumeWith False (Some 1)) (mkMapping 0x800 1 0x100 0x1000 False (Some 1)))
     = None
   \<and> fst (AddMapping False
            (snd (AddMapping False (volumeWith False (Some 1))
                    (mkMapping 0x800 1 0x100 0x1000 False (Some 1))))
            (mkMapping 0x800 1 0x100 0x1000 False (Some 1)))
     = Some ErrMultipleStripes"
  by (simp add: volumeWith_def) (simp add: lvm_eval)

section \<open>Conflicts leave the volume as it was\<close>

lemma fsck_stripes_error:
  "fsck_stripes pvs chunk stripes p2l = Inl e \<Longrightarrow> e = ErrFsckNoVolume"
  by (induction pvs chunk stripes p2l rule: fsck_stripes.induct)
     (auto simp: Let_def split: if_splits)

lemma fsck_chunks_error: "fsck_chunks pvs cs p2l = Inl e \<Longrightarrow> e = ErrFsckNoVolume"
  by (induction pvs cs p2l rule: fsck_chunks.induct)
     (auto split: sum.splits dest: fsck_stripes_error)

lemma fsck_error: "fsck lv = Some e \<Longrightarrow> e = ErrFsckNoVolume \<or> e = ErrFsckSkew"
  by (auto simp: fsck_def split: sum.splits if_splits dest: fsck_chunks_error)

lemma chunks_lv_init [simp]: "chunks (lv_init lv) = chunks lv"
  by (simp add: lv_init_def chunks_def)

lemma id2pv_lv_init [simp]: "id2pv (lv_init lv) = id2pv lv"
  by (simp add: lv_init_def)

lemma map_of_init_fold:
  "map_of (fold (\<lambda>(devid, pv) m. if map_of m devid = None then m @ [(devid, [])] else m) pvs m0) d
   = (case map_of m0 d of
        Some t \<Rightarrow> Some t
      | None \<Rightarrow> if d \<in> fst ` set pvs then Some [] else None)"
proof (induction pvs arbitrary: m0)
  case Nil
  then show ?case by (simp split: option.splits)
next
  case (Cons a pvs)
  obtain devid pv where a: "a = (devid, pv)" by (cases a)
  show ?case
    by (simp add: a Cons.IH map_of_append map_add_def split: option.splits)
qed

lemma devexts_lv_init [simp]: "devexts (lv_init lv) d = devexts lv d"
  by (simp add: devexts_def devextTrees_def lv_init_def map_of_init_fold split: option.splits)

lemma addMapping_conflict_state:
  assumes "fst (addMapping paranoid lv m dryRun) = Some e"
    and "e = SizeLockedConflict \<or> e = FlagsConflict \<or> e = DevExtConflict"
  shows "snd (addMapping paranoid lv m dryRun) = lv_init lv"
  using assms
  by (auto simp: addMapping_def Let_def split: if_splits sum.splits dest: fsck_error)

text \<open>
  Claim C6.  When \<^const>\<open>addMapping\<close> returns a size-lock, flags or device-extent conflict,
  the volume is the one it was given, but for the \<^verbatim>\<open>init\<close> every call starts with (which
  creates absent indexes and stores no mapping): the chunk index, every device's extent
  index and the registered devices are the same as before.
\<close>

theorem addMapping_conflict_unchanged:
  assumes "fst (addMapping paranoid lv m dryRun) = Some e"
    and "e = SizeLockedConflict \<or> e = FlagsConflict \<or> e = DevExtConflict"
  shows "snd (addMapping paranoid lv m dryRun) = lv_init lv
       \<and> chunks (snd (addMapping paranoid lv m dryRun)) = chunks lv
       \<and> (\<forall>dev. devexts (snd (addMapping paranoid lv m dryRun)) dev = devexts lv dev)
       \<and> id2pv (snd (addMapping paranoid lv m dryRun)) = id2pv lv"
  using addMapping_conflict_state [OF assms] by simp

text \<open>
  The example of the claim: after \<^verbatim>\<open>AddMapping{laddr=0, size=0x1000, size_locked=true}\<close>
  (at physical offset 0 of device 1), \<^verbatim>\<open>AddMapping{laddr=0x800, size=0x1000,
  size_locked=true}\<close> (at physical offset \<open>0x800\<close>) returns the size-lock conflict, and the
  volume is exactly the one the first call left.
\<close>

theorem addMapping_conflict_unchanged_witness:
  "AddMapping False volume1 (mkMapping 0 1 0 0x1000 True None) = (None, volumeWith True None)
   \<and> fst (addMapping False (volumeWith True None) (mkMapping 0x800 1 0x800 0x1000 True None) False)
       = Some SizeLockedConflict
   \<and> snd (addMapping False (volumeWith True None) (mkMapping 0x800 1 0x800 0x1000 True None) False)
       = volumeWith True None
   \<and> chunks (snd (addMapping False (volumeWith True None)
                     (mkMapping 0x800 1 0x800 0x1000 True None) False))
       = [\<lparr>cLAddr = 0, cPAddrs = [\<lparr>Dev = 1, Addr = 0\<rparr>], cSize = 0x1000,
           cSizeLocked = True, cFlags = None\<rparr>]"
proof -
  let ?lv = "volumeWith True None"
  let ?m = "mkMapping 0x800 1 0x800 0x1000 True None"
  have first: "AddMapping False volume1 (mkMapping 0 1 0 0x1000 True None) = (None, ?lv)"
    by (rule volumeWith_added)
  have err: "fst (addMapping False ?lv ?m False) = Some SizeLockedConflict"
    by (simp add: volumeWith_def) (simp add: lvm_eval)
  have kind: "SizeLockedConflict = SizeLockedConflict \<or> SizeLockedConflict = FlagsConflict
      \<or> SizeLockedConflict = DevExtConflict"
    by simp
  note same = addMapping_conflict_unchanged [OF err kind]
  from same have state: "snd (addMapping False ?lv ?m False) = ?lv"
    by (simp add: lv_init_volumeWith)
  from same have "chunks (snd (addMapping False ?lv ?m False)) = chunks ?lv" by blast
  then have cs: "chunks (snd (addMapping False ?lv ?m False))
      = [\<lparr>cLAddr = 0, cPAddrs = [\<lparr>Dev = 1, Addr = 0\<rparr>], cSize = 0x1000,
          cSizeLocked = True, cFlags = None\<rparr>]"
    by (simp add: volumeWith_def chunks_def)
  from first err state cs show ?thesis by blast
qed

section \<open>Chunk mappings do not overlap\<close>


























section \<open>Device extents never overlap\<close>






















section \<open>Resolve and UnResolve\<close>










section \<open>Resolve and UnResolve on a mirrored volume\<close>



lemma Resolve_volumeMirror:
  "Resolve (volumeMirror devA devB) 0x123 = ([\<lparr>Dev = 1, Addr = 0x123\<rparr>, \<lparr>Dev = 2, Addr = 0x123\<rparr>], 0xEDD)"
  by (simp add: Resolve_def volumeMirror_def chunks_def rb_Search_def chunk_cmpRange_def Let_def)






section \<open>Reads compare the stripes\<close>


lemma readStripes_later:
  assumes "\<forall>p\<in>set ps. \<exists>bytes. stripeBytes lv (length dat) p = Inr bytes"
  shows "readStripes lv dat False ps =
           (if list_all (\<lambda>p. stripeBytes lv (length dat) p = Inr dat) ps then Inr dat
            else Inl InconsistentStripes)"
  using assms
proof (induction ps)
  case Nil
  then show ?case by simp
next
  case (Cons p ps)
  from Cons.prems obtain bytes where b: "stripeBytes lv (length dat) p = Inr bytes" by auto
  then obtain dev where d: "map_of (id2pv lv) (Dev p) = Some dev"
    and rd: "pv_ReadAt dev (Addr p) (length dat) = Inr bytes"
    by (auto simp: stripeBytes_def split: option.splits)
  from Cons.IH Cons.prems have ih: "readStripes lv dat False ps =
           (if list_all (\<lambda>p. stripeBytes lv (length dat) p = Inr dat) ps then Inr dat
            else Inl InconsistentStripes)" by simp
  show ?case
  proof (cases "bytes = dat")
    case True
    with d rd have "readStripes lv dat False (p # ps) = readStripes lv dat False ps" by simp
    with ih b True show ?thesis by simp
  next
    case False
    with d rd have "readStripes lv dat False (p # ps) = Inl InconsistentStripes" by auto
    with b False show ?thesis by simp
  qed
qed

lemma readStripes_first:
  assumes "stripeBytes lv (length dat) p = Inr bytes"
    and "\<forall>q\<in>set ps. \<exists>bs. stripeBytes lv (length dat) q = Inr bs"
  shows "readStripes lv dat True (p # ps) =
           (if list_all (\<lambda>q. stripeBytes lv (length dat) q = Inr bytes) ps then Inr bytes
            else Inl InconsistentStripes)"
proof -
  from assms(1) obtain dev where d: "map_of (id2pv lv) (Dev p) = Some dev"
    and rd: "pv_ReadAt dev (Addr p) (length dat) = Inr bytes"
    by (auto simp: stripeBytes_def split: option.splits)
  from rd have l: "length bytes = length dat" by (rule pv_ReadAt_length)
  from assms(2) l have "\<forall>q\<in>set ps. \<exists>bs. stripeBytes lv (length bytes) q = Inr bs" by simp
  from readStripes_later[OF this] show ?thesis by (simp add: d rd l)
qed

lemma ReadAt_Nil: "ReadAt order lv [] laddr = ([], None)"
  by (subst ReadAt.simps) simp

lemma ReadAt_single:
  assumes "dat \<noteq> []" "maybeShortReadAt order lv dat laddr = Inr got" "length got = length dat"
  shows "ReadAt order lv dat laddr = (got, None)"
  using assms by (subst ReadAt.simps) (simp add: ReadAt_Nil)

lemma ReadAt_error:
  assumes "dat \<noteq> []" "maybeShortReadAt order lv dat laddr = Inl err"
  shows "ReadAt order lv dat laddr = ([], Some err)"
  using assms by (subst ReadAt.simps) simp

text \<open>
  Claim C9, as the code has it.  Take a read into a non-empty buffer whose address resolves to two or
  more stripes, that ends within the chunk (the buffer is no longer than what
  \<^const>\<open>Resolve\<close> reports as left of the chunk), and for which every stripe can be read.
  Whatever the order in which the stripes are visited, \<^const>\<open>ReadAt\<close> returns the
  inconsistent-stripes error exactly when two stripes hold different bytes, and when all
  hold the same bytes it returns them with no error.
\<close>

theorem ReadAt_stripes:
  assumes res: "Resolve lv laddr = (paddrs, maxlen)"
    and two: "2 \<le> length paddrs"
    and ord: "set (order paddrs) = set paddrs"
    and ne: "dat \<noteq> []" and len: "int (length dat) \<le> sint maxlen"
    and ok: "\<forall>p\<in>set paddrs. \<exists>bytes. stripeBytes lv (length dat) p = Inr bytes"
  shows "(snd (ReadAt order lv dat laddr) = Some InconsistentStripes \<longleftrightarrow>
            (\<exists>p\<in>set paddrs. \<exists>q\<in>set paddrs.
                stripeBytes lv (length dat) p \<noteq> stripeBytes lv (length dat) q))
       \<and> (\<forall>bytes. (\<forall>p\<in>set paddrs. stripeBytes lv (length dat) p = Inr bytes)
              \<longrightarrow> ReadAt order lv dat laddr = (bytes, None))"
proof -
  from two have pne: "paddrs \<noteq> []" by auto
  with ord obtain p0 ps where o: "order paddrs = p0 # ps" by (cases "order paddrs") auto
  from o ord have p0: "p0 \<in> set paddrs" and sub: "set ps \<subseteq> set paddrs"
    and all: "set paddrs = insert p0 (set ps)" by auto
  from ok p0 obtain b0 where b0: "stripeBytes lv (length dat) p0 = Inr b0" by blast
  from ok sub have okps: "\<forall>q\<in>set ps. \<exists>bs. stripeBytes lv (length dat) q = Inr bs" by blast
  have m: "maybeShortReadAt order lv dat laddr =
      (if list_all (\<lambda>q. stripeBytes lv (length dat) q = Inr b0) ps then Inr b0
       else Inl InconsistentStripes)"
  proof -
    have "readStripes lv dat True (order paddrs) =
      (if list_all (\<lambda>q. stripeBytes lv (length dat) q = Inr b0) ps then Inr b0
       else Inl InconsistentStripes)"
      unfolding o by (rule readStripes_first[OF b0 okps])
    with res pne len show ?thesis by (simp add: maybeShortReadAt_def)
  qed
  show ?thesis
  proof (cases "list_all (\<lambda>q. stripeBytes lv (length dat) q = Inr b0) ps")
    case True
    with all b0 have same: "\<forall>q\<in>set paddrs. stripeBytes lv (length dat) q = Inr b0"
      by (auto simp: list_all_iff)
    from m True have g: "maybeShortReadAt order lv dat laddr = Inr b0" by simp
    from maybeShortReadAt_progress[OF g ne] have "length b0 \<le> length dat" by simp
    moreover from b0 have "length b0 = length dat"
      by (auto simp: stripeBytes_def split: option.splits dest: pv_ReadAt_length)
    ultimately have r: "ReadAt order lv dat laddr = (b0, None)"
      using ReadAt_single[OF ne g] by simp
    have A: "snd (ReadAt order lv dat laddr) \<noteq> Some InconsistentStripes" by (simp add: r)
    have B: "\<not> (\<exists>p\<in>set paddrs. \<exists>q\<in>set paddrs.
        stripeBytes lv (length dat) p \<noteq> stripeBytes lv (length dat) q)"
      using same by simp
    have C: "\<forall>bytes. (\<forall>p\<in>set paddrs. stripeBytes lv (length dat) p = Inr bytes)
              \<longrightarrow> ReadAt order lv dat laddr = (bytes, None)"
    proof (intro allI impI)
      fix bytes
      assume "\<forall>p\<in>set paddrs. stripeBytes lv (length dat) p = Inr bytes"
      with p0 have "stripeBytes lv (length dat) p0 = Inr bytes" by blast
      with b0 have "bytes = b0" by simp
      with r show "ReadAt order lv dat laddr = (bytes, None)" by simp
    qed
    from A B C show ?thesis by blast
  next
    case False
    then obtain q where q: "q \<in> set ps" "stripeBytes lv (length dat) q \<noteq> Inr b0"
      by (auto simp: list_all_iff)
    from m False have "maybeShortReadAt order lv dat laddr = Inl InconsistentStripes" by simp
    from ReadAt_error[OF ne this] have r: "ReadAt order lv dat laddr = ([], Some InconsistentStripes)" .
    have A: "snd (ReadAt order lv dat laddr) = Some InconsistentStripes" by (simp add: r)
    from q sub have qin: "q \<in> set paddrs" by blast
    from q b0 have "stripeBytes lv (length dat) p0 \<noteq> stripeBytes lv (length dat) q" by simp
    with p0 qin have B: "\<exists>p\<in>set paddrs. \<exists>q\<in>set paddrs.
        stripeBytes lv (length dat) p \<noteq> stripeBytes lv (length dat) q"
      by blast
    have C: "\<forall>bytes. (\<forall>p\<in>set paddrs. stripeBytes lv (length dat) p = Inr bytes)
              \<longrightarrow> ReadAt order lv dat laddr = (bytes, None)"
    proof (intro allI impI)
      fix bytes
      assume h: "\<forall>p\<in>set paddrs. stripeBytes lv (length dat) p = Inr bytes"
      with p0 have "stripeBytes lv (length dat) p0 = Inr bytes" by blast
      with b0 have "bytes = b0" by simp
      with h qin q(2) have False by blast
      then show "ReadAt order lv dat laddr = (bytes, None)" ..
    qed
    from A B C show ?thesis by blast
  qed
qed


lemma upt_4: "[0..<4] = [0, 1, 2, 3]"
  by (simp add: eval_nat_numeral)

lemma stripeBytes_zero:
  "stripeBytes (volumeMirror zeroDevice devB) 4 \<lparr>Dev = 1, Addr = 0x123\<rparr> = Inr [0, 0, 0, 0]"
  by (simp add: stripeBytes_def pv_ReadAt_def volumeMirror_def zeroDevice_def upt_4)

lemma stripeBytes_zero2:
  "stripeBytes (volumeMirror devA zeroDevice) 4 \<lparr>Dev = 2, Addr = 0x123\<rparr> = Inr [0, 0, 0, 0]"
  by (simp add: stripeBytes_def pv_ReadAt_def volumeMirror_def zeroDevice_def upt_4)

lemma stripeBytes_one2:
  "stripeBytes (volumeMirror devA oneDevice) 4 \<lparr>Dev = 2, Addr = 0x123\<rparr> = Inr [1, 1, 1, 1]"
  by (simp add: stripeBytes_def pv_ReadAt_def volumeMirror_def oneDevice_def upt_4)

theorem ReadAt_stripes_witness:
  "Resolve (volumeMirror zeroDevice zeroDevice) 0x123
     = ([\<lparr>Dev = 1, Addr = 0x123\<rparr>, \<lparr>Dev = 2, Addr = 0x123\<rparr>], 0xEDD)
   \<and> ReadAt rev (volumeMirror zeroDevice zeroDevice) [9, 9, 9, 9] 0x123 = ([0, 0, 0, 0], None)
   \<and> snd (ReadAt rev (volumeMirror zeroDevice oneDevice) [9, 9, 9, 9] 0x123)
       = Some InconsistentStripes"
proof -
  let ?ps = "[\<lparr>Dev = 1, Addr = 0x123\<rparr>, \<lparr>Dev = 2, Addr = 0x123\<rparr>]"
  let ?dat = "[9, 9, 9, 9] :: 8 word list"
  have two: "2 \<le> length ?ps" by simp
  have ord: "set (rev ?ps) = set ?ps" by auto
  have ne: "?dat \<noteq> []" by simp
  have len: "int (length ?dat) \<le> sint (0xEDD :: 64 word)" by simp
  have l4: "length ?dat = 4" by simp
  have ok0: "\<forall>p\<in>set ?ps. \<exists>bytes. stripeBytes (volumeMirror zeroDevice zeroDevice) (length ?dat) p = Inr bytes"
    unfolding l4 using stripeBytes_zero [of zeroDevice] stripeBytes_zero2 [of zeroDevice] by simp
  have ok1: "\<forall>p\<in>set ?ps. \<exists>bytes. stripeBytes (volumeMirror zeroDevice oneDevice) (length ?dat) p = Inr bytes"
    unfolding l4 using stripeBytes_zero [of oneDevice] stripeBytes_one2 [of zeroDevice] by simp
  note t0 = ReadAt_stripes [where order = rev and dat = ?dat and paddrs = ?ps,
      OF Resolve_volumeMirror [of zeroDevice zeroDevice] two ord ne len ok0]
  note t1 = ReadAt_stripes [where order = rev and dat = ?dat and paddrs = ?ps,
      OF Resolve_volumeMirror [of zeroDevice oneDevice] two ord ne len ok1]
  have same: "\<forall>p\<in>set ?ps. stripeBytes (volumeMirror zeroDevice zeroDevice) (length ?dat) p = Inr [0, 0, 0, 0]"
    unfolding l4 using stripeBytes_zero [of zeroDevice] stripeBytes_zero2 [of zeroDevice] by simp
  from t0 same have a: "ReadAt rev (volumeMirror zeroDevice zeroDevice) ?dat 0x123 = ([0, 0, 0, 0], None)"
    by blast
  have "stripeBytes (volumeMirror zeroDevice oneDevice) (length ?dat) \<lparr>Dev = 1, Addr = 0x123\<rparr>
      \<noteq> stripeBytes (volumeMirror zeroDevice oneDevice) (length ?dat) \<lparr>Dev = 2, Addr = 0x123\<rparr>"
    unfolding l4 using stripeBytes_zero [of oneDevice] stripeBytes_one2 [of zeroDevice] by simp
  then have "\<exists>p\<in>set ?ps. \<exists>q\<in>set ?ps.
      stripeBytes (volumeMirror zeroDevice oneDevice) (length ?dat) p
        \<noteq> stripeBytes (volumeMirror zeroDevice oneDevice) (length ?dat) q"
    by (intro bexI[of _ "\<lparr>Dev = 1, Addr = 0x123\<rparr>"] bexI[of _ "\<lparr>Dev = 2, Addr = 0x123\<rparr>"]) simp_all
  with t1 have b: "snd (ReadAt rev (volumeMirror zeroDevice oneDevice) ?dat 0x123) = Some InconsistentStripes"
    by blast
  from Resolve_volumeMirror [of zeroDevice zeroDevice] a b show ?thesis by blast
qed

text \<open>
  Claim C9 as stated fails for a read that runs past the end of its chunk.  On the mirrored
  volume, whose only chunk is \<open>[0, 0x1000)\<close>, a read of 8 bytes at \<open>0xFFC\<close> resolves to two
  stripes that hold the same eight bytes.  The first short read returns the 4 bytes up to
  the end of the chunk, the loop of \<^const>\<open>ReadAt\<close> goes on at \<open>0x1000\<close>, which is not
  mapped, and the call returns those 4 bytes with the could-not-map error.
\<close>

lemma upt_8: "[0..<8] = [0, 1, 2, 3, 4, 5, 6, 7]"
  by (simp add: eval_nat_numeral)

theorem ReadAt_stripes_counterexample:
  "Resolve (volumeMirror zeroDevice zeroDevice) 0xFFC
     = ([\<lparr>Dev = 1, Addr = 0xFFC\<rparr>, \<lparr>Dev = 2, Addr = 0xFFC\<rparr>], 4)
   \<and> stripeBytes (volumeMirror zeroDevice zeroDevice) 8 \<lparr>Dev = 1, Addr = 0xFFC\<rparr>
       = Inr [0, 0, 0, 0, 0, 0, 0, 0]
   \<and> stripeBytes (volumeMirror zeroDevice zeroDevice) 8 \<lparr>Dev = 2, Addr = 0xFFC\<rparr>
       = Inr [0, 0, 0, 0, 0, 0, 0, 0]
   \<and> ReadAt (\<lambda>paddrs. paddrs) (volumeMirror zeroDevice zeroDevice) [9, 9, 9, 9, 9, 9, 9, 9] 0xFFC
       = ([0, 0, 0, 0], Some ErrCouldNotMap)"
proof -
  let ?lv = "volumeMirror zeroDevice zeroDevice"
  have res: "Resolve ?lv 0xFFC = ([\<lparr>Dev = 1, Addr = 0xFFC\<rparr>, \<lparr>Dev = 2, Addr = 0xFFC\<rparr>], 4)"
    by (simp add: Resolve_def volumeMirror_def chunks_def rb_Search_def chunk_cmpRange_def Let_def)
  have res2: "Resolve ?lv 0x1000 = ([], 0)"
    by (simp add: Resolve_def volumeMirror_def chunks_def rb_Search_def chunk_cmpRange_def Let_def)
  have s1: "stripeBytes ?lv 8 \<lparr>Dev = 1, Addr = 0xFFC\<rparr> = Inr [0, 0, 0, 0, 0, 0, 0, 0]"
    and s2: "stripeBytes ?lv 8 \<lparr>Dev = 2, Addr = 0xFFC\<rparr> = Inr [0, 0, 0, 0, 0, 0, 0, 0]"
    by (simp_all add: stripeBytes_def pv_ReadAt_def volumeMirror_def zeroDevice_def upt_8)
  have m1: "maybeShortReadAt (\<lambda>paddrs. paddrs) ?lv [9, 9, 9, 9, 9, 9, 9, 9] 0xFFC = Inr [0, 0, 0, 0]"
    by (simp add: maybeShortReadAt_def res)
       (simp add: volumeMirror_def pv_ReadAt_def zeroDevice_def upt_4)
  have m2: "maybeShortReadAt (\<lambda>paddrs. paddrs) ?lv [9, 9, 9, 9] 0x1000 = Inl ErrCouldNotMap"
    by (simp add: maybeShortReadAt_def res2)
  have r2: "ReadAt (\<lambda>paddrs. paddrs) ?lv [9, 9, 9, 9] 0x1000 = ([], Some ErrCouldNotMap)"
    by (rule ReadAt_error[OF _ m2]) simp
  have "ReadAt (\<lambda>paddrs. paddrs) ?lv [9, 9, 9, 9, 9, 9, 9, 9] 0xFFC = ([0, 0, 0, 0], Some ErrCouldNotMap)"
    by (subst ReadAt.simps) (simp add: m1 r2)
  with res s1 s2 show ?thesis by blast
qed

section \<open>Adding a root twice\<close>

lemma set_SortedKeys [simp]: "set (SortedKeys ks) = set ks"
  by (simp add: SortedKeys_def)

lemma AddRoot_leafs_spec:
  assumes "AddRoot_leafs ltr r ks leafs added = (leafs', added')"
  shows "\<exists>new. added' = added @ new \<and> set leafs' = set leafs \<union> set new
           \<and> set new \<inter> set leafs = {} \<and> distinct new \<and> set new \<subseteq> set ks
           \<and> (\<forall>leaf\<in>set ks. r \<in> set (rootsOf ltr leaf) \<longrightarrow> leaf \<in> set leafs')"
  using assms
proof (induction ks arbitrary: leafs added)
  case Nil
  then show ?case by simp
next
  case (Cons k ks)
  show ?case
  proof (cases "k \<in> set leafs \<or> r \<notin> set (rootsOf ltr k)")
    case True
    with Cons.prems have "AddRoot_leafs ltr r ks leafs added = (leafs', added')"
      by simp
    from Cons.IH[OF this] obtain new where n: "added' = added @ new"
      "set leafs' = set leafs \<union> set new" "set new \<inter> set leafs = {}" "distinct new"
      "set new \<subseteq> set ks"
      "\<forall>leaf\<in>set ks. r \<in> set (rootsOf ltr leaf) \<longrightarrow> leaf \<in> set leafs'" by blast
    with True show ?thesis by auto
  next
    case False
    from False have "AddRoot_leafs ltr r (k # ks) leafs added
        = AddRoot_leafs ltr r ks (List.insert k leafs) (added @ [k])"
      by (simp only: AddRoot_leafs.simps if_False)
    with Cons.prems have "AddRoot_leafs ltr r ks (List.insert k leafs) (added @ [k]) = (leafs', added')"
      by (simp only:)
    from Cons.IH[OF this] obtain new where n: "added' = (added @ [k]) @ new"
      "set leafs' = set (List.insert k leafs) \<union> set new"
      "set new \<inter> set (List.insert k leafs) = {}" "distinct new"
      "set new \<subseteq> set ks"
      "\<forall>leaf\<in>set ks. r \<in> set (rootsOf ltr leaf) \<longrightarrow> leaf \<in> set leafs'" by blast
    have "added' = added @ (k # new)" using n(1) by simp
    moreover have "set leafs' = set leafs \<union> set (k # new)" using n(2) by auto
    moreover have "set (k # new) \<inter> set leafs = {}" using n(3) False by auto
    moreover have "distinct (k # new)" using n(3,4) by auto
    moreover have "set (k # new) \<subseteq> set (k # ks)" using n(5) by auto
    moreover have "\<forall>leaf\<in>set (k # ks). r \<in> set (rootsOf ltr leaf) \<longrightarrow> leaf \<in> set leafs'"
      using n(2,6) by auto
    ultimately show ?thesis by blast
  qed
qed

lemma AddRoot_leafs_nothing:
  assumes "\<forall>leaf\<in>set ks. leaf \<in> set leafs \<or> r \<notin> set (rootsOf ltr leaf)"
  shows "AddRoot_leafs ltr r ks leafs added = (leafs, added)"
  using assms by (induction ks) auto

lemma AddRoot_spec:
  assumes a: "AddRoot g tree st r = Inr (st', added)"
  obtains ltr where "leafToRoots g tree = Inr ltr"
    "Roots st' = List.insert r (Roots st)"
    "set (Leafs st') = set (Leafs st) \<union> set added"
    "set added \<inter> set (Leafs st) = {}" "distinct added"
    "\<forall>leaf\<in>fst ` set ltr. r \<in> set (rootsOf ltr leaf) \<longrightarrow> leaf \<in> set (Leafs st')"
    "incItems st' = incItems st" "allItems st' = allItems st"
proof -
  from a obtain ltr where l: "leafToRoots g tree = Inr ltr"
    by (cases "leafToRoots g tree") (auto simp: AddRoot_def)
  obtain leafs added0 where r: "AddRoot_leafs ltr r (SortedKeys (map fst ltr)) (Leafs st) [] = (leafs, added0)"
    by (cases "AddRoot_leafs ltr r (SortedKeys (map fst ltr)) (Leafs st) []")
  with a l have st': "st' = st\<lparr>Roots := List.insert r (Roots st), Leafs := leafs\<rparr>" and ad: "added = added0"
    by (auto simp: AddRoot_def)
  from AddRoot_leafs_spec[OF r] st' ad l that show thesis by auto
qed

lemma covered_AddRoot:
  assumes "leafToRoots g tree = Inr ltr" "covered ltr st" "AddRoot g tree st r = Inr (st', added)"
  shows "covered ltr st'"
proof -
  from assms(3) obtain ltr' where l: "leafToRoots g tree = Inr ltr'"
    and R: "Roots st' = List.insert r (Roots st)"
    and L: "set (Leafs st') = set (Leafs st) \<union> set added"
    and C: "\<forall>leaf\<in>fst ` set ltr'. r \<in> set (rootsOf ltr' leaf) \<longrightarrow> leaf \<in> set (Leafs st')"
    by (rule AddRoot_spec)
  from l assms(1) have "ltr' = ltr" by simp
  with assms(2) R L C show ?thesis
    by (auto simp: covered_def)
qed

lemma AddRoot_again:
  assumes l: "leafToRoots g tree = Inr ltr" and c: "covered ltr st" and r: "r \<in> set (Roots st)"
  shows "AddRoot g tree st r = Inr (st, [])"
proof -
  from c r have "\<forall>leaf\<in>set (SortedKeys (map fst ltr)). leaf \<in> set (Leafs st) \<or> r \<notin> set (rootsOf ltr leaf)"
    by (auto simp: covered_def)
  from AddRoot_leafs_nothing[OF this] have
    "AddRoot_leafs ltr r (SortedKeys (map fst ltr)) (Leafs st) [] = (Leafs st, [])" .
  moreover from r have "List.insert r (Roots st) = Roots st" by simp
  ultimately show ?thesis by (simp add: AddRoot_def l)
qed

lemma AddRoots_distinct:
  assumes "AddRoots g tree st rs = Inr (st', added)"
  shows "distinct added \<and> set added \<inter> set (Leafs st) = {} \<and> set (Leafs st') = set (Leafs st) \<union> set added"
  using assms
proof (induction rs arbitrary: st st' added)
  case Nil
  then show ?case by simp
next
  case (Cons r rs)
  from Cons.prems obtain st1 a1 st2 a2 where 1: "AddRoot g tree st r = Inr (st1, a1)"
    and 2: "AddRoots g tree st1 rs = Inr (st2, a2)" and e: "st' = st2" "added = a1 @ a2"
    by (auto split: sum.splits)
  from 1 have L1: "set (Leafs st1) = set (Leafs st) \<union> set a1"
    and D1: "set a1 \<inter> set (Leafs st) = {}" "distinct a1"
    by (auto elim: AddRoot_spec)
  from Cons.IH[OF 2] have "distinct a2" "set a2 \<inter> set (Leafs st1) = {}"
    "set (Leafs st2) = set (Leafs st1) \<union> set a2" by auto
  with L1 D1 e show ?case by auto
qed

lemma treeInv_AddRoot:
  assumes "treeInv g tree st" "AddRoot g tree st r = Inr (st', added)"
  shows "treeInv g tree st'"
proof -
  from assms(2) obtain ltr where l: "leafToRoots g tree = Inr ltr"
    by (cases "leafToRoots g tree") (auto simp: AddRoot_def)
  obtain leafs added0 where r: "AddRoot_leafs ltr r (SortedKeys (map fst ltr)) (Leafs st) [] = (leafs, added0)"
    by (cases "AddRoot_leafs ltr r (SortedKeys (map fst ltr)) (Leafs st) []")
  with assms(2) l have L: "Leafs st' = leafs" by (auto simp: AddRoot_def)
  from AddRoot_leafs_spec[OF r] have "set leafs \<subseteq> set (Leafs st) \<union> fst ` set ltr" by auto
  with assms(1) l L have "set (Leafs st') \<subseteq> fst ` set ltr" by (auto simp: treeInv_def)
  moreover from assms l have "covered ltr st'" by (auto simp: treeInv_def intro: covered_AddRoot)
  ultimately show ?thesis by (simp add: treeInv_def l)
qed

lemma treeInv_ItemsOf:
  assumes "treeInv g tree st" "ItemsOf g tree st = Inr (m, st')"
  shows "treeInv g tree st'"
  using assms by (auto simp: treeInv_def ItemsOf_def covered_def split: sum.splits)

lemma treeInv_PotentialItems:
  assumes "treeInv g tree st" "PotentialItems g tree st = Inr (m, st')"
  shows "treeInv g tree st'"
  using assms by (auto simp: treeInv_def PotentialItems_def covered_def split: sum.splits)

lemma reachableTree_treeInv: "reachableTree g tree st \<Longrightarrow> treeInv g tree st"
proof (induction rule: reachableTree.induct)
  case reachableTree_new
  then show ?case by (simp add: treeInv_def newTreeState_def covered_def split: sum.splits)
next
  case (reachableTree_AddRoot st rootNode st' added)
  then show ?case by (auto intro: treeInv_AddRoot)
next
  case (reachableTree_Items st m st')
  then show ?case by (auto intro: treeInv_ItemsOf)
next
  case (reachableTree_PotentialItems st m st')
  then show ?case by (auto intro: treeInv_PotentialItems)
next
  case (reachableTree_evict_incItems st)
  then show ?case by (auto simp: treeInv_def covered_def split: sum.splits)
next
  case (reachableTree_evict_allItems st)
  then show ?case by (auto simp: treeInv_def covered_def split: sum.splits)
qed

text \<open>
  Claim C10.  In every state of a rebuilt tree (reached from the empty one by \<^verbatim>\<open>AddRoot\<close>,
  \<^verbatim>\<open>Items\<close> and \<^verbatim>\<open>PotentialItems\<close> calls and cache evictions), \<^verbatim>\<open>AddRoot\<close> of a root that is
  already among the roots returns the same state, adds no leaf and so calls
  \<^verbatim>\<open>cbAddedItem\<close> not at all; and over any sequence of further \<^verbatim>\<open>AddRoot\<close> calls no leaf is
  added, and so announced, twice, nor is a leaf that the tree already has.
\<close>

theorem AddRoot_idempotent:
  assumes "reachableTree g tree st"
  shows "(r \<in> set (Roots st) \<longrightarrow>
            AddRoot g tree st r = Inr (st, []) \<and> cbAddedItem_calls g tree [] = [])
       \<and> (AddRoots g tree st rs = Inr (st', added) \<longrightarrow>
            distinct added \<and> set added \<inter> set (Leafs st) = {})"
proof -
  from assms have inv: "treeInv g tree st" by (rule reachableTree_treeInv)
  have "AddRoot g tree st r = Inr (st, [])" if r: "r \<in> set (Roots st)"
  proof (cases "leafToRoots g tree")
    case (Inl err)
    with inv r show ?thesis by (simp add: treeInv_def)
  next
    case (Inr ltr)
    with inv have "covered ltr st" by (simp add: treeInv_def)
    from AddRoot_again[OF Inr this r] show ?thesis .
  qed
  moreover have "cbAddedItem_calls g tree [] = []" by (simp add: cbAddedItem_calls_def)
  moreover have "distinct added \<and> set added \<inter> set (Leafs st) = {}"
    if "AddRoots g tree st rs = Inr (st', added)"
    using AddRoots_distinct[OF that] by simp
  ultimately show ?thesis by blast
qed


section \<open>Items and PotentialItems\<close>

lemma shouldReplace_prefers:
  "shouldReplace g tree old new =
     (if prefers g tree new old then Inr True
      else if prefers g tree old new then Inr False
      else Inl Panic)"
  by (auto simp: shouldReplace_def prefers_def Let_def)

lemma prefers_trans: "prefers g tree a b \<Longrightarrow> prefers g tree b c \<Longrightarrow> prefers g tree a c"
  by (auto simp: prefers_def Let_def)

lemma indexInv_store_new:
  assumes inv: "indexInv g tree P m" and k: "keyAt g q = k" and none: "m k = None"
  shows "indexInv g tree (insert q P) (m(k \<mapsto> q))"
proof -
  from inv none k have noP: "\<forall>q'\<in>P. keyAt g q' \<noteq> k" by (auto simp: indexInv_def)
  have entries: "\<forall>k' p. (m(k \<mapsto> q)) k' = Some p \<longrightarrow>
        p \<in> insert q P \<and> keyAt g p = k'
        \<and> (\<forall>q'\<in>insert q P. keyAt g q' = k' \<longrightarrow> q' = p \<or> prefers g tree (ptrNode p) (ptrNode q'))"
  proof (intro allI impI)
    fix k' p assume "(m(k \<mapsto> q)) k' = Some p"
    then consider (new) "k' = k" "p = q" | (old) "k' \<noteq> k" "m k' = Some p"
      by (auto split: if_splits)
    then show "p \<in> insert q P \<and> keyAt g p = k'
        \<and> (\<forall>q'\<in>insert q P. keyAt g q' = k' \<longrightarrow> q' = p \<or> prefers g tree (ptrNode p) (ptrNode q'))"
    proof cases
      case new
      with k noP show ?thesis by auto
    next
      case old
      with inv k show ?thesis by (auto simp: indexInv_def)
    qed
  qed
  have present: "\<forall>q'\<in>insert q P. (m(k \<mapsto> q)) (keyAt g q') \<noteq> None"
    using inv k by (auto simp: indexInv_def)
  from entries present show ?thesis unfolding indexInv_def by blast
qed

lemma indexInv_store_better:
  assumes inv: "indexInv g tree P m" and k: "keyAt g q = k" and old: "m k = Some old"
    and pref: "prefers g tree (ptrNode q) (ptrNode old)"
  shows "indexInv g tree (insert q P) (m(k \<mapsto> q))"
proof -
  have entries: "\<forall>k' p. (m(k \<mapsto> q)) k' = Some p \<longrightarrow>
        p \<in> insert q P \<and> keyAt g p = k'
        \<and> (\<forall>q'\<in>insert q P. keyAt g q' = k' \<longrightarrow> q' = p \<or> prefers g tree (ptrNode p) (ptrNode q'))"
  proof (intro allI impI)
  fix k' p assume "(m(k \<mapsto> q)) k' = Some p"
  then consider (new) "k' = k" "p = q" | (other) "k' \<noteq> k" "m k' = Some p"
    by (auto split: if_splits)
  then show "p \<in> insert q P \<and> keyAt g p = k'
      \<and> (\<forall>q'\<in>insert q P. keyAt g q' = k' \<longrightarrow> q' = p \<or> prefers g tree (ptrNode p) (ptrNode q'))"
  proof cases
    case new
    have "q' = q \<or> prefers g tree (ptrNode q) (ptrNode q')" if "q' \<in> P" "keyAt g q' = k" for q'
    proof -
      from inv old that have "q' = old \<or> prefers g tree (ptrNode old) (ptrNode q')"
        by (auto simp: indexInv_def)
      with pref show ?thesis by (auto intro: prefers_trans)
    qed
    with new k show ?thesis by auto
  next
    case other
    with inv k show ?thesis by (auto simp: indexInv_def)
  qed
  qed
  have present: "\<forall>q'\<in>insert q P. (m(k \<mapsto> q)) (keyAt g q') \<noteq> None"
    using inv k by (auto simp: indexInv_def)
  from entries present show ?thesis unfolding indexInv_def by blast
qed

lemma indexInv_keep:
  assumes inv: "indexInv g tree P m" and k: "keyAt g q = k" and old: "m k = Some old"
    and pref: "prefers g tree (ptrNode old) (ptrNode q)"
  shows "indexInv g tree (insert q P) m"
proof -
  have entries: "\<forall>k' p. m k' = Some p \<longrightarrow>
        p \<in> insert q P \<and> keyAt g p = k'
        \<and> (\<forall>q'\<in>insert q P. keyAt g q' = k' \<longrightarrow> q' = p \<or> prefers g tree (ptrNode p) (ptrNode q'))"
  proof (intro allI impI)
  fix k' p assume mp: "m k' = Some p"
  with inv have a: "p \<in> P" "keyAt g p = k'"
    "\<forall>q'\<in>P. keyAt g q' = k' \<longrightarrow> q' = p \<or> prefers g tree (ptrNode p) (ptrNode q')"
    by (auto simp: indexInv_def)
  have "keyAt g q = k' \<longrightarrow> q = p \<or> prefers g tree (ptrNode p) (ptrNode q)"
    using mp old k pref by auto
  with a show "p \<in> insert q P \<and> keyAt g p = k'
      \<and> (\<forall>q'\<in>insert q P. keyAt g q' = k' \<longrightarrow> q' = p \<or> prefers g tree (ptrNode p) (ptrNode q'))"
    by auto
  qed
  have present: "\<forall>q'\<in>insert q P. m (keyAt g q') \<noteq> None"
    using inv k old by (auto simp: indexInv_def)
  from entries present show ?thesis unfolding indexInv_def by blast
qed

lemma items_leaf_inv:
  assumes "indexInv g tree P (ixItems index)"
    and "drop j (Items (nodeAt g leaf)) = ks"
    and "items_leaf g tree leaf j ks index = Inr index'"
  shows "indexInv g tree
           (P \<union> {q. ptrNode q = leaf \<and> j \<le> ptrIdx q \<and> ptrIdx q < length (Items (nodeAt g leaf))})
           (ixItems index')
         \<and> ixLeafs index' = ixLeafs index"
  using assms
proof (induction ks arbitrary: j index P)
  case Nil
  then have e: "{q. ptrNode q = leaf \<and> j \<le> ptrIdx q \<and> ptrIdx q < length (Items (nodeAt g leaf))} = {}"
    by auto
  from Nil show ?case unfolding e by simp
next
  case (Cons k rest)
  let ?its = "Items (nodeAt g leaf)"
  let ?q = "\<lparr>ptrNode = leaf, ptrIdx = j\<rparr>"
  from Cons.prems(2) have j: "j < length ?its" by (cases "j < length ?its") auto
  from Cons.prems(2) j have kj: "?its ! j = k" by (metis nth_via_drop)
  from Cons.prems(2) j have dr: "drop (Suc j) ?its = rest" by (metis drop_Suc tl_drop list.sel(3))
  have key: "keyAt g ?q = k" by (simp add: keyAt_def kj)
  have slots: "insert ?q P \<union> {q. ptrNode q = leaf \<and> Suc j \<le> ptrIdx q \<and> ptrIdx q < length ?its}
      = P \<union> {q. ptrNode q = leaf \<and> j \<le> ptrIdx q \<and> ptrIdx q < length ?its}" (is "?A = ?B")
  proof
    show "?A \<subseteq> ?B" using j by auto
    show "?B \<subseteq> ?A"
    proof
      fix q assume "q \<in> ?B"
      then have "q \<in> P \<or> (ptrNode q = leaf \<and> ptrIdx q = j)
          \<or> (ptrNode q = leaf \<and> Suc j \<le> ptrIdx q \<and> ptrIdx q < length ?its)"
        by auto
      then consider "q \<in> P" | "ptrNode q = leaf" "ptrIdx q = j" | "ptrNode q = leaf" "Suc j \<le> ptrIdx q" "ptrIdx q < length ?its"
        by blast
      then show "q \<in> ?A"
      proof cases
        case 2
        then have "q = ?q" by simp
        then show ?thesis by simp
      qed auto
    qed
  qed
  show ?case
  proof (cases "ixItems index k")
    case None
    let ?ix = "index\<lparr>ixItems := (ixItems index)(k \<mapsto> ?q)\<rparr>"
    from Cons.prems(3) None have run: "items_leaf g tree leaf (Suc j) rest ?ix = Inr index'"
      by (simp add: Let_def)
    have "indexInv g tree (insert ?q P) (ixItems ?ix)"
      using indexInv_store_new[OF Cons.prems(1) key None] by simp
    from Cons.IH[OF this dr run] have r: "indexInv g tree
        (insert ?q P \<union> {q. ptrNode q = leaf \<and> Suc j \<le> ptrIdx q \<and> ptrIdx q < length ?its})
        (ixItems index')" and l: "ixLeafs index' = ixLeafs index"
      by simp_all
    from r have "indexInv g tree
        (P \<union> {q. ptrNode q = leaf \<and> j \<le> ptrIdx q \<and> ptrIdx q < length ?its}) (ixItems index')"
      by (simp only: slots)
    with l show ?thesis by simp
  next
    case (Some old)
    from Cons.prems(3) Some obtain replace where
      sr: "shouldReplace g tree (ptrNode old) leaf = Inr replace"
      and run: "items_leaf g tree leaf (Suc j) rest
                  (index\<lparr>NumDups := NumDups index + 1,
                         ixItems := (if replace then (ixItems index)(k \<mapsto> ?q) else ixItems index)\<rparr>)
                = Inr index'"
      by (auto simp: Let_def split: sum.splits)
    let ?ix = "index\<lparr>NumDups := NumDups index + 1,
                         ixItems := (if replace then (ixItems index)(k \<mapsto> ?q) else ixItems index)\<rparr>"
    have "indexInv g tree (insert ?q P) (ixItems ?ix)"
    proof (cases replace)
      case True
      with sr have "prefers g tree leaf (ptrNode old)"
        by (auto simp: shouldReplace_prefers split: if_splits)
      then have "prefers g tree (ptrNode ?q) (ptrNode old)" by simp
      from indexInv_store_better[OF Cons.prems(1) key Some this] True show ?thesis by simp
    next
      case False
      with sr have "prefers g tree (ptrNode old) leaf"
        by (auto simp: shouldReplace_prefers split: if_splits)
      then have "prefers g tree (ptrNode old) (ptrNode ?q)" by simp
      from indexInv_keep[OF Cons.prems(1) key Some this] False show ?thesis by simp
    qed
    from Cons.IH[OF this dr run] have r: "indexInv g tree
        (insert ?q P \<union> {q. ptrNode q = leaf \<and> Suc j \<le> ptrIdx q \<and> ptrIdx q < length ?its})
        (ixItems index')" and l: "ixLeafs index' = ixLeafs index"
      by simp_all
    from r have "indexInv g tree
        (P \<union> {q. ptrNode q = leaf \<and> j \<le> ptrIdx q \<and> ptrIdx q < length ?its}) (ixItems index')"
      by (simp only: slots)
    with l show ?thesis by simp
  qed
qed

lemma slotsOf_insert:
  "slotsOf g (List.insert leaf leafs)
   = slotsOf g leafs \<union> {q. ptrNode q = leaf \<and> 0 \<le> ptrIdx q \<and> ptrIdx q < length (Items (nodeAt g leaf))}"
  by (auto simp: slotsOf_def)

lemma items_leafs_inv:
  assumes "indexOK g tree index" and "items_leafs g tree leafs index = Inr index'"
  shows "indexOK g tree index' \<and> set (ixLeafs index') = set (ixLeafs index) \<union> set leafs"
  using assms
proof (induction leafs arbitrary: index)
  case Nil
  then show ?case by simp
next
  case (Cons leaf leafs)
  show ?case
  proof (cases "leaf \<in> set (ixLeafs index)")
    case True
    with Cons.prems have "items_leafs g tree leafs index = Inr index'" by simp
    from Cons.IH[OF Cons.prems(1) this] True show ?thesis by auto
  next
    case False
    let ?ix = "index\<lparr>ixLeafs := List.insert leaf (ixLeafs index)\<rparr>"
    from Cons.prems(2) False obtain index2 where
      one: "items_leaf g tree leaf 0 (Items (nodeAt g leaf)) ?ix = Inr index2"
      and more: "items_leafs g tree leafs index2 = Inr index'"
      by (auto split: sum.splits)
    from Cons.prems(1) have "indexInv g tree (slotsOf g (ixLeafs index)) (ixItems ?ix)"
      by (simp add: indexOK_def)
    from items_leaf_inv[OF this _ one] have
      "indexInv g tree (slotsOf g (List.insert leaf (ixLeafs index))) (ixItems index2)"
      and l2: "ixLeafs index2 = List.insert leaf (ixLeafs index)"
      by (simp_all add: slotsOf_insert)
    then have "indexOK g tree index2" by (simp add: indexOK_def)
    from Cons.IH[OF this more] l2 show ?thesis by auto
  qed
qed

lemma indexOK_new: "indexOK g tree newItemIndex"
  by (simp add: indexOK_def indexInv_def newItemIndex_def slotsOf_def)

lemma items_inv:
  assumes "cacheOK g tree cache" and "items g tree cache leafs = Inr index'"
  shows "indexOK g tree index'
       \<and> set (ixLeafs index') = (case cache of None \<Rightarrow> {} | Some index \<Rightarrow> set (ixLeafs index)) \<union> set leafs"
proof (cases cache)
  case None
  with assms(2) have "items_leafs g tree leafs newItemIndex = Inr index'" by (simp add: items_def)
  from items_leafs_inv[OF indexOK_new this] None show ?thesis by (simp add: newItemIndex_def)
next
  case (Some index)
  with assms have "indexOK g tree index" "items_leafs g tree leafs index = Inr index'"
    by (simp_all add: cacheOK_def items_def)
  from items_leafs_inv[OF this] Some show ?thesis by simp
qed


lemma ItemsOf_spec:
  assumes "cacheInv g tree st" "ItemsOf g tree st = Inr (m, st')"
  obtains index where "st' = st\<lparr>incItems := Some index\<rparr>" "m = ixItems index"
    "indexOK g tree index" "set (ixLeafs index) = set (Leafs st)"
proof -
  from assms(2) obtain index where i: "items g tree (incItems st) (SortedKeys (Leafs st)) = Inr index"
    and e: "st' = st\<lparr>incItems := Some index\<rparr>" "m = ixItems index"
    by (auto simp: ItemsOf_def split: sum.splits)
  from assms(1) have "cacheOK g tree (incItems st)" and sub: "cacheLeafs (incItems st) \<subseteq> set (Leafs st)"
    by (simp_all add: cacheInv_def)
  from items_inv[OF this(1) i] sub have "indexOK g tree index" "set (ixLeafs index) = set (Leafs st)"
    by (auto simp: cacheLeafs_def)
  with e that show thesis by blast
qed

lemma PotentialItems_spec:
  assumes "cacheInv g tree st" "PotentialItems g tree st = Inr (m, st')"
  obtains index ltr where "leafToRoots g tree = Inr ltr" "st' = st\<lparr>allItems := Some index\<rparr>"
    "m = ixItems index" "indexOK g tree index" "set (ixLeafs index) = fst ` set ltr"
proof -
  from assms(2) obtain ltr index where l: "leafToRoots g tree = Inr ltr"
    and i: "items g tree (allItems st) (SortedKeys (map fst ltr)) = Inr index"
    and e: "st' = st\<lparr>allItems := Some index\<rparr>" "m = ixItems index"
    by (auto simp: PotentialItems_def split: sum.splits)
  from assms(1) l have "cacheOK g tree (allItems st)" and sub: "cacheLeafs (allItems st) \<subseteq> fst ` set ltr"
    by (simp_all add: cacheInv_def)
  from items_inv[OF this(1) i] sub have "indexOK g tree index" "set (ixLeafs index) = fst ` set ltr"
    by (auto simp: cacheLeafs_def)
  with l e that show thesis by blast
qed

lemma reachableTree_cacheInv: "reachableTree g tree st \<Longrightarrow> cacheInv g tree st"
proof (induction rule: reachableTree.induct)
  case reachableTree_new
  then show ?case by (simp add: cacheInv_def newTreeState_def cacheOK_def cacheLeafs_def)
next
  case (reachableTree_AddRoot st rootNode st' added)
  from reachableTree_AddRoot(2) have "set (Leafs st') = set (Leafs st) \<union> set added"
    "incItems st' = incItems st" "allItems st' = allItems st"
    by (auto elim: AddRoot_spec)
  with reachableTree_AddRoot(3) show ?case by (auto simp: cacheInv_def)
next
  case (reachableTree_Items st m st')
  from reachableTree_Items(3,2) obtain index where "st' = st\<lparr>incItems := Some index\<rparr>"
    "indexOK g tree index" "set (ixLeafs index) = set (Leafs st)"
    by (rule ItemsOf_spec)
  with reachableTree_Items(3) show ?case by (simp add: cacheInv_def cacheOK_def cacheLeafs_def)
next
  case (reachableTree_PotentialItems st m st')
  from reachableTree_PotentialItems(3,2) obtain index ltr where "leafToRoots g tree = Inr ltr"
    "st' = st\<lparr>allItems := Some index\<rparr>"
    "indexOK g tree index" "set (ixLeafs index) = fst ` set ltr"
    by (rule PotentialItems_spec)
  with reachableTree_PotentialItems(3) show ?case
    by (simp add: cacheInv_def cacheOK_def cacheLeafs_def)
next
  case (reachableTree_evict_incItems st)
  then show ?case by (simp add: cacheInv_def cacheOK_def cacheLeafs_def)
next
  case (reachableTree_evict_allItems st)
  then show ?case by (simp add: cacheInv_def cacheOK_def cacheLeafs_def)
qed

text \<open>
  Claim C4, as the code has it.  In every state of a rebuilt tree, a key that the index
  of \<^verbatim>\<open>Items\<close> holds is also held by the index of \<^verbatim>\<open>PotentialItems\<close>, which maps it to the
  same pointer or to a slot of another leaf, one that \<^const>\<open>shouldReplace\<close> prefers to the
  leaf chosen by \<^verbatim>\<open>Items\<close> (both calls returning, that is, not panicking).
\<close>

theorem Items_in_PotentialItems:
  assumes r: "reachableTree g tree st"
    and i: "ItemsOf g tree st = Inr (m1, st1)"
    and p: "PotentialItems g tree st = Inr (m2, st2)"
    and k: "m1 k = Some p1"
  shows "\<exists>p2. m2 k = Some p2
           \<and> (p2 = p1 \<or> shouldReplace g tree (ptrNode p1) (ptrNode p2) = Inr True)"
proof -
  from r have ci: "cacheInv g tree st" by (rule reachableTree_cacheInv)
  from ci i obtain ix1 where m1: "m1 = ixItems ix1" and ok1: "indexOK g tree ix1"
    and l1: "set (ixLeafs ix1) = set (Leafs st)"
    by (rule ItemsOf_spec)
  from ci p obtain ix2 ltr where ltr: "leafToRoots g tree = Inr ltr" and m2: "m2 = ixItems ix2"
    and ok2: "indexOK g tree ix2" and l2: "set (ixLeafs ix2) = fst ` set ltr"
    by (rule PotentialItems_spec)
  from reachableTree_treeInv[OF r] ltr have "set (Leafs st) \<subseteq> fst ` set ltr"
    by (simp add: treeInv_def)
  with l1 l2 have sub: "slotsOf g (ixLeafs ix1) \<subseteq> slotsOf g (ixLeafs ix2)"
    by (auto simp: slotsOf_def)
  from ok1 k m1 have p1: "p1 \<in> slotsOf g (ixLeafs ix1)" "keyAt g p1 = k"
    by (auto simp: indexOK_def indexInv_def)
  with sub have in2: "p1 \<in> slotsOf g (ixLeafs ix2)" by blast
  with ok2 p1(2) obtain p2 where e2: "ixItems ix2 k = Some p2"
    by (fastforce simp: indexOK_def indexInv_def)
  with ok2 in2 p1(2) have "p1 = p2 \<or> prefers g tree (ptrNode p2) (ptrNode p1)"
    unfolding indexOK_def indexInv_def by blast
  then have "p2 = p1 \<or> shouldReplace g tree (ptrNode p1) (ptrNode p2) = Inr True"
    by (auto simp: shouldReplace_prefers)
  with e2 m2 show ?thesis by blast
qed


section \<open>The example graph\<close>

lemmas tree_eval =
  leafToRoots_def exampleGraph_def exampleTree_def exampleKey_def SortedKeys_def indexNode.simps
  nodeAt_def edgesTo_def InsertFrom_def rootsOf_def AddRoot_def newTreeState_def
  ItemsOf_def PotentialItems_def items_def newItemIndex_def shouldReplace_def COWDistance_def
  exampleState_def Let_def

lemma example_leafToRoots: "leafToRoots exampleGraph exampleTree = Inr [(100, [100]), (200, [300])]"
  by (simp add: tree_eval)

lemma example_AddRoot: "AddRoot exampleGraph exampleTree newTreeState 100 = Inr (exampleState, [100])"
  by (simp add: AddRoot_def example_leafToRoots) (simp add: tree_eval)

lemma example_reachable: "reachableTree exampleGraph exampleTree exampleState"
  using reachableTree_AddRoot [OF reachableTree_new example_AddRoot] .

lemma example_Items:
  "ItemsOf exampleGraph exampleTree exampleState
   = Inr ([exampleKey \<mapsto> \<lparr>ptrNode = 100, ptrIdx = 0\<rparr>],
          exampleState\<lparr>incItems := Some \<lparr>NumDups = 0, ixLeafs = [100],
                          ixItems = [exampleKey \<mapsto> \<lparr>ptrNode = 100, ptrIdx = 0\<rparr>]\<rparr>\<rparr>)"
  by (simp add: tree_eval)

lemma example_PotentialItems:
  "PotentialItems exampleGraph exampleTree exampleState
   = Inr ([exampleKey \<mapsto> \<lparr>ptrNode = 200, ptrIdx = 0\<rparr>],
          exampleState\<lparr>allItems := Some \<lparr>NumDups = 1, ixLeafs = [200, 100],
                          ixItems = [exampleKey \<mapsto> \<lparr>ptrNode = 200, ptrIdx = 0\<rparr>]\<rparr>\<rparr>)"
  by (simp add: PotentialItems_def example_leafToRoots) (simp add: tree_eval)

text \<open>
  Claim C4 as stated fails.  Tree 5 has the root 100, which is the leaf 100 of generation
  10 holding the key \<open>(256, 1, 0)\<close>; the leaf 200 of generation 20, below the node 300 that
  is not a root of the tree, holds the same key.  \<^verbatim>\<open>Items\<close> maps the key to slot 0 of leaf
  100, \<^verbatim>\<open>PotentialItems\<close> to slot 0 of leaf 200.
\<close>

theorem Items_PotentialItems_counterexample:
  "lookupItem (ItemsOf exampleGraph exampleTree exampleState) exampleKey
     = Some \<lparr>ptrNode = 100, ptrIdx = 0\<rparr>
   \<and> lookupItem (PotentialItems exampleGraph exampleTree exampleState) exampleKey
     = Some \<lparr>ptrNode = 200, ptrIdx = 0\<rparr>
   \<and> lookupItem (ItemsOf exampleGraph exampleTree exampleState) exampleKey
     \<noteq> lookupItem (PotentialItems exampleGraph exampleTree exampleState) exampleKey"
  by (simp add: lookupItem_def example_Items example_PotentialItems)


theorem Items_in_PotentialItems_witness:
  "reachableTree exampleGraph exampleTree exampleState
   \<and> lookupItem (ItemsOf exampleGraph exampleTree exampleState) exampleKey
       = Some \<lparr>ptrNode = 100, ptrIdx = 0\<rparr>
   \<and> lookupItem (PotentialItems exampleGraph exampleTree exampleState) exampleKey
       = Some \<lparr>ptrNode = 200, ptrIdx = 0\<rparr>
   \<and> shouldReplace exampleGraph exampleTree 100 200 = Inr True"
proof -
  let ?p1 = "\<lparr>ptrNode = 100, ptrIdx = 0\<rparr>"
  let ?p2 = "\<lparr>ptrNode = 200, ptrIdx = 0\<rparr>"
  have k: "[exampleKey \<mapsto> ?p1] exampleKey = Some ?p1" by simp
  from Items_in_PotentialItems [OF example_reachable example_Items example_PotentialItems k]
  obtain p2 where "[exampleKey \<mapsto> ?p2] exampleKey = Some p2"
    and d: "p2 = ?p1 \<or> shouldReplace exampleGraph exampleTree (ptrNode ?p1) (ptrNode p2) = Inr True"
    by blast
  then have "p2 = ?p2" by simp
  with d have "shouldReplace exampleGraph exampleTree 100 200 = Inr True" by auto
  then show ?thesis
    by (simp add: example_reachable lookupItem_def example_Items example_PotentialItems)
qed

lemma example_AddRoots:
  "AddRoots exampleGraph exampleTree exampleState [300, 100]
   = Inr (\<lparr>Roots = [300, 100], Leafs = [200, 100], incItems = None, allItems = None\<rparr>, [200])"
  by (simp add: AddRoot_def example_leafToRoots) (simp add: tree_eval)

theorem AddRoot_idempotent_witness:
  "reachableTree exampleGraph exampleTree exampleState
   \<and> 100 \<in> set (Roots exampleState)
   \<and> AddRoot exampleGraph exampleTree exampleState 100 = Inr (exampleState, [])
   \<and> AddRoots exampleGraph exampleTree exampleState [300, 100]
       = Inr (\<lparr>Roots = [300, 100], Leafs = [200, 100], incItems = None, allItems = None\<rparr>, [200])
   \<and> distinct [200 :: LogicalAddr] \<and> set [200] \<inter> set (Leafs exampleState) = {}"
proof -
  have r: "100 \<in> set (Roots exampleState)" by (simp add: exampleState_def)
  note t = AddRoot_idempotent [OF example_reachable, of 100 "[300, 100]"
      "\<lparr>Roots = [300, 100], Leafs = [200, 100], incItems = None, allItems = None\<rparr>" "[200]"]
  from t [THEN conjunct1, THEN mp, OF r]
  have a: "AddRoot exampleGraph exampleTree exampleState 100 = Inr (exampleState, [])" by blast
  from t [THEN conjunct2, THEN mp, OF example_AddRoots]
  have b: "distinct [200 :: LogicalAddr] \<and> set [200] \<inter> set (Leafs exampleState) = {}" .
  from example_reachable r a example_AddRoots b show ?thesis by blast
qed

end
